theory Spec2Isabelle
  imports Complex_Main "HOL-Library.Sublist" "HOL-Library.AList"
begin

section \<open>JavaScript values\<close>

text \<open>
  The services of the cities pollution API work on untyped JSON data. A number is a
  binary64 value: not-a-number, one of the two infinities, or a finite value, which the
  model represents by the rational number it denotes (the two zeros are one value: no
  operation of the code tells them apart). A string is a list of code units; the model
  covers the code units below 256 (Latin-1). An object is the list of its properties.
\<close>

datatype jsnum = NaN | PosInf | NegInf | Fin rat

datatype jsval =
    JUndefined
  | JNull
  | JBool bool
  | JNum jsnum
  | JStr string
  | JArr "jsval list"
  | JObj "(string \<times> jsval) list"

datatype js_error = TypeError

text \<open>\<open>!v\<close> is the negation of \<open>truthy v\<close>.\<close>

fun truthy :: "jsval \<Rightarrow> bool" where
  "truthy JUndefined = False"
| "truthy JNull = False"
| "truthy (JBool b) = b"
| "truthy (JNum n) = (n \<noteq> NaN \<and> n \<noteq> Fin 0)"
| "truthy (JStr s) = (s \<noteq> [])"
| "truthy (JArr xs) = True"
| "truthy (JObj fs) = True"

text \<open>\<open>typeof v === 'object'\<close>: arrays and \<open>null\<close> are objects too.\<close>

fun typeof_object :: "jsval \<Rightarrow> bool" where
  "typeof_object JNull = True"
| "typeof_object (JArr xs) = True"
| "typeof_object (JObj fs) = True"
| "typeof_object v = False"

fun isArray :: "jsval \<Rightarrow> bool" where
  "isArray (JArr xs) = True"
| "isArray v = False"

text \<open>
  Reading a property \<open>v.k\<close> of a value other than \<open>null\<close> and \<open>undefined\<close>, for
  a key that is neither an index nor a built-in property: only a plain object can hold
  it.
\<close>

fun getProp :: "jsval \<Rightarrow> string \<Rightarrow> jsval" where
  "getProp (JObj fs) k = (case map_of fs k of Some v \<Rightarrow> v | None \<Rightarrow> JUndefined)"
| "getProp v k = JUndefined"

subsection \<open>Characters and strings\<close>

definition isDigit :: "char \<Rightarrow> bool" where
  "isDigit c = (let n = (of_char c :: nat) in 48 \<le> n \<and> n \<le> 57)"

definition isUpper :: "char \<Rightarrow> bool" where
  "isUpper c = (let n = (of_char c :: nat) in 65 \<le> n \<and> n \<le> 90)"

definition isLetter :: "char \<Rightarrow> bool" where
  "isLetter c = (let n = (of_char c :: nat) in (65 \<le> n \<and> n \<le> 90) \<or> (97 \<le> n \<and> n \<le> 122))"

text \<open>
  White space as \<open>trim\<close> and the class \<open>\s\<close> see it: tab, line feed, vertical
  tab, form feed, carriage return, space and the no-break space.
\<close>

definition isSpace :: "char \<Rightarrow> bool" where
  "isSpace c = (of_char c \<in> {9, 10, 11, 12, 13, 32, 160 :: nat})"

definition trim :: "string \<Rightarrow> string" where
  "trim s = rev (dropWhile isSpace (rev (dropWhile isSpace s)))"

text \<open>
  A regular expression with the flag \<open>i\<close> and no flag \<open>u\<close> compares characters by
  their upper-case forms, and never lets a character outside ASCII match an ASCII one:
  on the patterns of this program, which are ASCII, that is comparing after folding
  \<open>A\<close> to \<open>Z\<close> down to lower case.
\<close>

definition foldAscii :: "char \<Rightarrow> char" where
  "foldAscii c = (if isUpper c then char_of (of_char c + (32 :: nat)) else c)"

text \<open>
  \<open>String.prototype.toLowerCase\<close> on Latin-1: the ASCII capitals and the accented
  capitals \<open>0xC0\<close> to \<open>0xDE\<close>, the multiplication sign \<open>0xD7\<close> apart, move up by 32.
\<close>

definition lowerChar :: "char \<Rightarrow> char" where
  "lowerChar c =
     (let n = (of_char c :: nat)
      in if (65 \<le> n \<and> n \<le> 90) \<or> (192 \<le> n \<and> n \<le> 222 \<and> n \<noteq> 215)
         then char_of (n + 32) else c)"

definition toLowerCase :: "string \<Rightarrow> string" where
  "toLowerCase s = map lowerChar s"

text \<open>The substring test of strings: \<open>w\<close> occurs in \<open>s\<close> as a contiguous run.\<close>

fun str_includes :: "string \<Rightarrow> string \<Rightarrow> bool" where
  "str_includes [] w = (w = [])"
| "str_includes (c # cs) w = (prefix w (c # cs) \<or> str_includes cs w)"

text \<open>
  \<open>s.split(/\s+/)\<close>: the pieces between the maximal runs of white space; a run at
  either end leaves an empty piece there.
\<close>

function split_ws :: "string \<Rightarrow> string list" where
  "split_ws [] = [[]]"
| "split_ws (c # cs) =
     (if isSpace c then [] # split_ws (dropWhile isSpace cs)
      else (case split_ws cs of
              p # ps \<Rightarrow> (c # p) # ps
            | [] \<Rightarrow> [[c]]))"
  by pat_completeness auto
termination
  by (relation "measure length") (auto simp: length_dropWhile_le less_Suc_eq_le)

subsection \<open>Numbers read from strings\<close>

text \<open>
  \<open>parseFloat\<close> skips leading white space and reads the longest prefix that is a
  decimal literal: a sign, then \<open>Infinity\<close> or digits with an optional fraction and
  an optional exponent; whatever follows is ignored, and no such prefix gives \<open>NaN\<close>.
  The decimal value read is rounded to the nearest binary64 number (\<open>toDouble\<close>).
\<close>

definition digitsVal :: "string \<Rightarrow> nat" where
  "digitsVal ds = foldl (\<lambda>a c. 10 * a + (of_char c - 48)) 0 ds"

definition pow10 :: "int \<Rightarrow> rat" where
  "pow10 e = (if 0 \<le> e then 10 ^ nat e else 1 / 10 ^ nat (- e))"

text \<open>
  Rounding to binary64, to the nearest value and to the even one of two nearest. A
  positive \<open>a\<close> lies between \<open>2 ^ e\<close> and \<open>2 ^ (e + 1)\<close> for \<open>e = ilog2 a\<close>;
  the binary64 values there are the multiples of \<open>2 ^ (e - 52)\<close>, and below
  \<open>2 ^ -1022\<close> the multiples of \<open>2 ^ -1074\<close>. A magnitude that rounds to
  \<open>2 ^ 1024\<close> is an infinity.
\<close>

definition pow2 :: "int \<Rightarrow> rat" where
  "pow2 e = (if 0 \<le> e then 2 ^ nat e else 1 / 2 ^ nat (- e))"

fun bitLength :: "nat \<Rightarrow> nat" where
  "bitLength n = (if n = 0 then 0 else Suc (bitLength (n div 2)))"

declare bitLength.simps [simp del]

definition ilog2 :: "rat \<Rightarrow> int" where
  "ilog2 a =
     (if 1 \<le> a then int (bitLength (nat \<lfloor>a\<rfloor>)) - 1
      else - int (bitLength (nat (\<lceil>1 / a\<rceil> - 1))))"

definition roundHalfEven :: "rat \<Rightarrow> int" where
  "roundHalfEven x =
     (let f = \<lfloor>x\<rfloor>; d = x - of_int f
      in if d < 1 / 2 then f
         else if 1 / 2 < d then f + 1
         else if even f then f else f + 1)"

definition roundMagnitude :: "rat \<Rightarrow> rat" where
  "roundMagnitude a =
     (if a = 0 then 0
      else (let q = pow2 (max (ilog2 a) (- 1022) - 52)
            in of_int (roundHalfEven (a / q)) * q))"

definition toDouble :: "rat \<Rightarrow> jsnum" where
  "toDouble v =
     (let r = roundMagnitude \<bar>v\<bar>
      in if 2 ^ 1024 \<le> r then (if v < 0 then NegInf else PosInf)
         else Fin (if v < 0 then - r else r))"

definition scanSign :: "string \<Rightarrow> bool \<times> string" where
  "scanSign s =
     (case s of
        c # r \<Rightarrow> if c = CHR ''-'' then (True, r) else if c = CHR ''+'' then (False, r) else (False, s)
      | [] \<Rightarrow> (False, []))"

definition scanExponent :: "string \<Rightarrow> int \<times> string" where
  "scanExponent s =
     (case s of
        c # r \<Rightarrow>
          if c = CHR ''e'' \<or> c = CHR ''E'' then
            (let (neg, d) = scanSign r; ds = takeWhile isDigit d
             in if ds = [] then (0, s)
                else (if neg then - int (digitsVal ds) else int (digitsVal ds), dropWhile isDigit d))
          else (0, s)
      | [] \<Rightarrow> (0, []))"

definition scanDecimal :: "string \<Rightarrow> (rat \<times> string) option" where
  "scanDecimal s =
     (let ip = takeWhile isDigit s; r1 = dropWhile isDigit s;
          (fp, r2) = (case r1 of
                        c # r \<Rightarrow> if c = CHR ''.'' then (takeWhile isDigit r, dropWhile isDigit r)
                                 else ([], r1)
                      | [] \<Rightarrow> ([], []))
      in if ip = [] \<and> fp = [] then None
         else (let (ex, r3) = scanExponent r2
               in Some (of_nat (digitsVal (ip @ fp)) * pow10 (ex - int (length fp)), r3)))"

definition parseFloat :: "string \<Rightarrow> jsnum" where
  "parseFloat s =
     (let (neg, u) = scanSign (dropWhile isSpace s)
      in if prefix ''Infinity'' u then (if neg then NegInf else PosInf)
         else (case scanDecimal u of
                 None \<Rightarrow> NaN
               | Some (v, rest) \<Rightarrow> toDouble (if neg then - v else v)))"

text \<open>
  \<open>Number(s)\<close> on a string: the whole string, white space at both ends apart, must
  be a numeric literal; the empty string is 0, and the prefixes \<open>0x\<close>, \<open>0o\<close> and
  \<open>0b\<close> introduce hexadecimal, octal and binary digits.
\<close>

definition radixDigit :: "char \<Rightarrow> nat" where
  "radixDigit c =
     (let n = (of_char c :: nat)
      in if 48 \<le> n \<and> n \<le> 57 then n - 48
         else if 97 \<le> n \<and> n \<le> 102 then n - 87
         else if 65 \<le> n \<and> n \<le> 70 then n - 55
         else 16)"

definition scanRadix :: "nat \<Rightarrow> string \<Rightarrow> nat option" where
  "scanRadix b ds =
     (if ds \<noteq> [] \<and> list_all (\<lambda>c. radixDigit c < b) ds
      then Some (foldl (\<lambda>a c. b * a + radixDigit c) 0 ds) else None)"

definition nonDecimalLiteral :: "string \<Rightarrow> nat option" where
  "nonDecimalLiteral t =
     (case t of
        z # x # ds \<Rightarrow>
          if z \<noteq> CHR ''0'' then None
          else if x = CHR ''x'' \<or> x = CHR ''X'' then scanRadix 16 ds
          else if x = CHR ''o'' \<or> x = CHR ''O'' then scanRadix 8 ds
          else if x = CHR ''b'' \<or> x = CHR ''B'' then scanRadix 2 ds
          else None
      | _ \<Rightarrow> None)"

definition stringToNumber :: "string \<Rightarrow> jsnum" where
  "stringToNumber s =
     (let t = trim s
      in if t = [] then Fin 0
         else (case nonDecimalLiteral t of
                 Some n \<Rightarrow> toDouble (of_nat n)
               | None \<Rightarrow>
                   (let (neg, u) = scanSign t
                    in if u = ''Infinity'' then (if neg then NegInf else PosInf)
                       else (case scanDecimal u of
                               Some (v, []) \<Rightarrow> toDouble (if neg then - v else v)
                             | _ \<Rightarrow> NaN))))"

text \<open>
  Converting an object to a primitive value calls its \<open>valueOf\<close> and
  \<open>toString\<close>. For an object read from JSON the inherited \<open>valueOf\<close> returns the
  object itself and the inherited \<open>toString\<close> returns \<open>[object Object]\<close>; but a
  property of its own named \<open>toString\<close> hides the inherited method and cannot be
  called, and the conversion throws a \<open>TypeError\<close>. An array is converted by
  joining the strings of its elements with commas, \<open>null\<close> and \<open>undefined\<close> left
  empty, and throws if one of the others does.
\<close>

fun toPrimitiveThrows :: "jsval \<Rightarrow> bool" where
  "toPrimitiveThrows (JObj fs) = (map_of fs ''toString'' \<noteq> None)"
| "toPrimitiveThrows (JArr xs) =
     list_ex (\<lambda>x. x \<noteq> JUndefined \<and> x \<noteq> JNull \<and> toPrimitiveThrows x) xs"
| "toPrimitiveThrows v = False"

text \<open>
  \<open>Number(v)\<close>, the conversion that \<open>isNaN\<close>, \<open>isFinite\<close> and a comparison with
  a number apply to their operand. \<open>numberOf\<close> is its value where it does not throw:
  the empty array reads as the empty string, an array of one element as that element's
  string (a number printed and read back is itself), and a string with a comma in it is
  no numeric literal.
\<close>

fun numberOf :: "jsval \<Rightarrow> jsnum" where
  "numberOf JUndefined = NaN"
| "numberOf JNull = Fin 0"
| "numberOf (JBool b) = Fin (if b then 1 else 0)"
| "numberOf (JNum n) = n"
| "numberOf (JStr s) = stringToNumber s"
| "numberOf (JObj fs) = NaN"
| "numberOf (JArr []) = Fin 0"
| "numberOf (JArr [JUndefined]) = Fin 0"
| "numberOf (JArr [JNull]) = Fin 0"
| "numberOf (JArr [JBool b]) = NaN"
| "numberOf (JArr [JNum n]) = n"
| "numberOf (JArr [JStr s]) = stringToNumber s"
| "numberOf (JArr [JObj fs]) = NaN"
| "numberOf (JArr [JArr ys]) = numberOf (JArr ys)"
| "numberOf (JArr (x # y # zs)) = NaN"

definition toNumber :: "jsval \<Rightarrow> js_error + jsnum" where
  "toNumber v = (if toPrimitiveThrows v then Inl TypeError else Inr (numberOf v))"

text \<open>
  \<open>parseFloat(v)\<close> on any value: \<open>parseFloat\<close> of the string of \<open>v\<close>. Only the
  first element of an array can contribute, the comma after it ending every literal.
\<close>

fun parseFloatOf :: "jsval \<Rightarrow> jsnum" where
  "parseFloatOf (JStr s) = parseFloat s"
| "parseFloatOf (JNum n) = n"
| "parseFloatOf (JArr (JUndefined # xs)) = NaN"
| "parseFloatOf (JArr (JNull # xs)) = NaN"
| "parseFloatOf (JArr (x # xs)) = parseFloatOf x"
| "parseFloatOf v = NaN"

definition parseFloatVal :: "jsval \<Rightarrow> js_error + jsnum" where
  "parseFloatVal v = (if toPrimitiveThrows v then Inl TypeError else Inr (parseFloatOf v))"

text \<open>
  \<open>String(v)\<close>; \<open>stringOf\<close> is its value where it does not throw. The digits that
  print a number are those of the shortest decimal that reads back as the same binary64
  value; the model takes the printing of numbers as the parameter \<open>numberToString\<close>.
\<close>

fun join_comma :: "string list \<Rightarrow> string" where
  "join_comma [] = []"
| "join_comma [x] = x"
| "join_comma (x # y # zs) = x @ '','' @ join_comma (y # zs)"

fun stringOf :: "(jsnum \<Rightarrow> string) \<Rightarrow> jsval \<Rightarrow> string" where
  "stringOf numberToString JUndefined = ''undefined''"
| "stringOf numberToString JNull = ''null''"
| "stringOf numberToString (JBool b) = (if b then ''true'' else ''false'')"
| "stringOf numberToString (JNum n) = numberToString n"
| "stringOf numberToString (JStr s) = s"
| "stringOf numberToString (JObj fs) = ''[object Object]''"
| "stringOf numberToString (JArr xs) =
     join_comma (map (\<lambda>x. if x = JUndefined \<or> x = JNull then [] else stringOf numberToString x) xs)"

definition toString :: "(jsnum \<Rightarrow> string) \<Rightarrow> jsval \<Rightarrow> js_error + string" where
  "toString numberToString v =
     (if toPrimitiveThrows v then Inl TypeError else Inr (stringOf numberToString v))"

definition isNaN :: "jsval \<Rightarrow> js_error + bool" where
  "isNaN v = (case toNumber v of Inl err \<Rightarrow> Inl err | Inr n \<Rightarrow> Inr (n = NaN))"

definition isFinite :: "jsval \<Rightarrow> js_error + bool" where
  "isFinite v =
     (case toNumber v of
        Inl err \<Rightarrow> Inl err
      | Inr n \<Rightarrow> Inr (case n of Fin r \<Rightarrow> True | _ \<Rightarrow> False))"

text \<open>\<open>a < b\<close> on numbers: false as soon as one side is \<open>NaN\<close>.\<close>

fun js_less :: "jsnum \<Rightarrow> jsnum \<Rightarrow> bool" where
  "js_less NaN b = False"
| "js_less a NaN = False"
| "js_less (Fin x) (Fin y) = (x < y)"
| "js_less (Fin x) PosInf = True"
| "js_less (Fin x) NegInf = False"
| "js_less NegInf NegInf = False"
| "js_less NegInf b = True"
| "js_less PosInf b = False"

text \<open>\<open>v < n\<close> and \<open>v > n\<close> for a number \<open>n\<close>: \<open>v\<close> is converted to a number first.\<close>

definition lessThanNumber :: "jsval \<Rightarrow> jsnum \<Rightarrow> js_error + bool" where
  "lessThanNumber v n = (case toNumber v of Inl err \<Rightarrow> Inl err | Inr x \<Rightarrow> Inr (js_less x n))"

definition greaterThanNumber :: "jsval \<Rightarrow> jsnum \<Rightarrow> js_error + bool" where
  "greaterThanNumber v n = (case toNumber v of Inl err \<Rightarrow> Inl err | Inr x \<Rightarrow> Inr (js_less n x))"

section \<open>The data validator\<close>

subsection \<open>The rejection patterns\<close>

text \<open>
  \<open>invalidPatterns\<close>, each regular expression as the predicate it decides, in the
  order of the source.
\<close>

definition pat_pure_numbers :: "string \<Rightarrow> bool" where
  "pat_pure_numbers s = (s \<noteq> [] \<and> list_all isDigit s)"

definition pat_no_letters :: "string \<Rightarrow> bool" where
  "pat_no_letters s = list_all (\<lambda>c. \<not> isLetter c) s"

definition pat_whitespace :: "string \<Rightarrow> bool" where
  "pat_whitespace s = list_all isSpace s"

definition pat_test_data :: "string \<Rightarrow> bool" where
  "pat_test_data s = (map foldAscii s \<in> set [''test'', ''sample'', ''dummy'', ''fake''])"

definition pat_null_indicator :: "string \<Rightarrow> bool" where
  "pat_null_indicator s = (map foldAscii s \<in> set [''n/a'', ''null'', ''undefined''])"

definition pat_special_chars :: "string \<Rightarrow> bool" where
  "pat_special_chars s = (s \<noteq> [] \<and> list_all (\<lambda>c. c \<in> set ''<>{}[]()'') s)"

definition pat_admin_division :: "string \<Rightarrow> bool" where
  "pat_admin_division s =
     list_ex (\<lambda>w. suffix w (map foldAscii s))
       [''region'', ''province'', ''state'', ''county'', ''district'']"

definition invalidPatterns :: "(string \<Rightarrow> bool) list" where
  "invalidPatterns =
     [pat_pure_numbers, pat_no_letters, pat_whitespace, pat_test_data,
      pat_null_indicator, pat_special_chars, pat_admin_division]"

definition suspiciousWords :: "string list" where
  "suspiciousWords =
     [''ocean'', ''sea'', ''river'', ''lake'', ''mountain'', ''desert'', ''forest'',
      ''airport'', ''station'', ''port'', ''base'', ''facility'',
      ''region'', ''area'', ''zone'', ''sector'', ''district'']"

definition validCountryCodes :: "string list" where
  "validCountryCodes =
     [''AD'', ''AE'', ''AF'', ''AG'', ''AI'', ''AL'', ''AM'', ''AO'', ''AQ'', ''AR'', ''AS'', ''AT'',
      ''AU'', ''AW'', ''AX'', ''AZ'', ''BA'', ''BB'', ''BD'', ''BE'', ''BF'', ''BG'', ''BH'', ''BI'',
      ''BJ'', ''BL'', ''BM'', ''BN'', ''BO'', ''BQ'', ''BR'', ''BS'', ''BT'', ''BV'', ''BW'', ''BY'',
      ''BZ'', ''CA'', ''CC'', ''CD'', ''CF'', ''CG'', ''CH'', ''CI'', ''CK'', ''CL'', ''CM'', ''CN'',
      ''CO'', ''CR'', ''CU'', ''CV'', ''CW'', ''CX'', ''CY'', ''CZ'', ''DE'', ''DJ'', ''DK'', ''DM'',
      ''DO'', ''DZ'', ''EC'', ''EE'', ''EG'', ''EH'', ''ER'', ''ES'', ''ET'', ''FI'', ''FJ'', ''FK'',
      ''FM'', ''FO'', ''FR'', ''GA'', ''GB'', ''GD'', ''GE'', ''GF'', ''GG'', ''GH'', ''GI'', ''GL'',
      ''GM'', ''GN'', ''GP'', ''GQ'', ''GR'', ''GS'', ''GT'', ''GU'', ''GW'', ''GY'', ''HK'', ''HM'',
      ''HN'', ''HR'', ''HT'', ''HU'', ''ID'', ''IE'', ''IL'', ''IM'', ''IN'', ''IO'', ''IQ'', ''IR'',
      ''IS'', ''IT'', ''JE'', ''JM'', ''JO'', ''JP'', ''KE'', ''KG'', ''KH'', ''KI'', ''KM'', ''KN'',
      ''KP'', ''KR'', ''KW'', ''KY'', ''KZ'', ''LA'', ''LB'', ''LC'', ''LI'', ''LK'', ''LR'', ''LS'',
      ''LT'', ''LU'', ''LV'', ''LY'', ''MA'', ''MC'', ''MD'', ''ME'', ''MF'', ''MG'', ''MH'', ''MK'',
      ''ML'', ''MM'', ''MN'', ''MO'', ''MP'', ''MQ'', ''MR'', ''MS'', ''MT'', ''MU'', ''MV'', ''MW'',
      ''MX'', ''MY'', ''MZ'', ''NA'', ''NC'', ''NE'', ''NF'', ''NG'', ''NI'', ''NL'', ''NO'', ''NP'',
      ''NR'', ''NU'', ''NZ'', ''OM'', ''PA'', ''PE'', ''PF'', ''PG'', ''PH'', ''PK'', ''PL'', ''PM'',
      ''PN'', ''PR'', ''PS'', ''PT'', ''PW'', ''PY'', ''QA'', ''RE'', ''RO'', ''RS'', ''RU'', ''RW'',
      ''SA'', ''SB'', ''SC'', ''SD'', ''SE'', ''SG'', ''SH'', ''SI'', ''SJ'', ''SK'', ''SL'', ''SM'',
      ''SN'', ''SO'', ''SR'', ''SS'', ''ST'', ''SV'', ''SX'', ''SY'', ''SZ'', ''TC'', ''TD'', ''TF'',
      ''TG'', ''TH'', ''TJ'', ''TK'', ''TL'', ''TM'', ''TN'', ''TO'', ''TR'', ''TT'', ''TV'', ''TW'',
      ''TZ'', ''UA'', ''UG'', ''UM'', ''US'', ''UY'', ''UZ'', ''VA'', ''VC'', ''VE'', ''VG'', ''VI'',
      ''VN'', ''VU'', ''WF'', ''WS'', ''YE'', ''YT'', ''ZA'', ''ZM'', ''ZW'']"

subsection \<open>isValidCityName\<close>

definition isValidCityName :: "jsval \<Rightarrow> bool" where
  "isValidCityName name =
     (case name of
        JStr s \<Rightarrow>
          (let trimmedName = trim s in
           if length trimmedName < 1 \<or> length trimmedName > 100 then False
           else if list_ex (\<lambda>pattern. pattern trimmedName) invalidPatterns then False
           else if list_ex (\<lambda>word. str_includes (toLowerCase trimmedName) word
                                  \<and> length (split_ws trimmedName) = 1) suspiciousWords
                then False
           else if \<not> list_ex isLetter trimmedName then False
           else if length (filter isDigit trimmedName) > length (filter isLetter trimmedName)
                then False
           else True)
      | _ \<Rightarrow> False)"

subsection \<open>isValidCountry\<close>

definition isValidCountry :: "jsval \<Rightarrow> bool" where
  "isValidCountry country =
     (case country of
        JStr s \<Rightarrow>
          (let trimmedCountry = trim s in
           if length trimmedCountry < 2 \<or> length trimmedCountry > 100 then False
           else if list_ex (\<lambda>pattern. pattern trimmedCountry) invalidPatterns then False
           else if length trimmedCountry = 2 \<and> list_all isUpper trimmedCountry
                then trimmedCountry \<in> set validCountryCodes
           else if \<not> list_ex isLetter trimmedCountry then False
           else True)
      | _ \<Rightarrow> False)"

subsection \<open>isValidPollutionValue\<close>

text \<open>
  The result is \<open>Inr\<close> of the boolean returned, or \<open>Inl\<close> of the error thrown by
  the conversion of the value to a number.
\<close>

definition isValidPollutionValue :: "jsval \<Rightarrow> js_error + bool" where
  "isValidPollutionValue pollution =
     (let numericValue = (case pollution of JStr s \<Rightarrow> JNum (parseFloat s) | _ \<Rightarrow> pollution)
      in case isNaN numericValue of
           Inl err \<Rightarrow> Inl err
         | Inr nan \<Rightarrow>
             if nan then Inr False
             else (case isFinite numericValue of
                     Inl err \<Rightarrow> Inl err
                   | Inr fin \<Rightarrow>
                       if \<not> fin then Inr False
                       else (case lessThanNumber numericValue (Fin 0) of
                               Inl err \<Rightarrow> Inl err
                             | Inr negative \<Rightarrow>
                                 if negative then Inr False
                                 else (case greaterThanNumber numericValue (Fin 1000) of
                                         Inl err \<Rightarrow> Inl err
                                       | Inr large \<Rightarrow> if large then Inr False else Inr True))))"

subsection \<open>isValidCity\<close>

definition isValidCity :: "jsval \<Rightarrow> js_error + bool" where
  "isValidCity entry =
     (if \<not> truthy entry \<or> \<not> typeof_object entry then Inr False
      else (let name = getProp entry ''name''; pollution = getProp entry ''pollution''
            in if \<not> truthy name \<or> pollution = JUndefined \<or> pollution = JNull then Inr False
               else if \<not> isValidCityName name then Inr False
               else (case isValidPollutionValue pollution of
                       Inl err \<Rightarrow> Inl err
                     | Inr valid \<Rightarrow> if \<not> valid then Inr False else Inr True)))"

subsection \<open>normalizeCity\<close>

record normalized_city =
  name :: string
  country :: string
  pollution :: jsnum

text \<open>
  Reading a property of \<open>null\<close> or \<open>undefined\<close> throws a \<open>TypeError\<close>, and so
  may each of the three conversions, made in the order of the fields.
\<close>

definition normalizeCity :: "(jsnum \<Rightarrow> string) \<Rightarrow> jsval \<Rightarrow> js_error + normalized_city" where
  "normalizeCity numberToString city =
     (if city = JUndefined \<or> city = JNull then Inl TypeError
      else (case toString numberToString (getProp city ''name'') of
              Inl err \<Rightarrow> Inl err
            | Inr n \<Rightarrow>
                (case toString numberToString (getProp city ''country'') of
                   Inl err \<Rightarrow> Inl err
                 | Inr c \<Rightarrow>
                     (case parseFloatVal (getProp city ''pollution'') of
                        Inl err \<Rightarrow> Inl err
                      | Inr p \<Rightarrow> Inr \<lparr> name = trim n, country = trim c, pollution = p \<rparr>))))"

subsection \<open>filterValidCities\<close>

text \<open>
  The loop over the entries, \<open>validCities\<close> being the list built so far; an error
  thrown by \<open>isValidCity\<close> or by \<open>normalizeCity\<close> leaves the function, which
  catches nothing. The log lines and the count of the entries filtered out, which only
  the log shows, are left out.
\<close>

fun filterEntries ::
  "(jsnum \<Rightarrow> string) \<Rightarrow> jsval list \<Rightarrow> normalized_city list \<Rightarrow> js_error + normalized_city list" where
  "filterEntries numberToString [] validCities = Inr validCities"
| "filterEntries numberToString (entry # rest) validCities =
     (case isValidCity entry of
        Inl err \<Rightarrow> Inl err
      | Inr valid \<Rightarrow>
          if valid
          then (case normalizeCity numberToString entry of
                  Inl err \<Rightarrow> Inl err
                | Inr city \<Rightarrow> filterEntries numberToString rest (validCities @ [city]))
          else filterEntries numberToString rest validCities)"

definition filterValidCities :: "(jsnum \<Rightarrow> string) \<Rightarrow> jsval \<Rightarrow> js_error + normalized_city list" where
  "filterValidCities numberToString rawData =
     (case rawData of
        JArr entries \<Rightarrow> filterEntries numberToString entries []
      | _ \<Rightarrow> Inr [])"

subsection \<open>Vocabulary of the properties\<close>

text \<open>
  The ASCII punctuation characters, and the placeholder tokens that a name must not be,
  for stating what the validator rejects.
\<close>

definition isPunct :: "char \<Rightarrow> bool" where
  "isPunct c =
     (let n = (of_char c :: nat)
      in (33 \<le> n \<and> n \<le> 47) \<or> (58 \<le> n \<and> n \<le> 64) \<or> (91 \<le> n \<and> n \<le> 96) \<or> (123 \<le> n \<and> n \<le> 126))"

definition placeholderTokens :: "string list" where
  "placeholderTokens = [''test'', ''sample'', ''dummy'', ''fake'', ''n/a'', ''null'', ''undefined'']"

text \<open>A printer of numbers for the examples, which print no number but 10.\<close>

definition printTen :: "jsnum \<Rightarrow> string" where
  "printTen n = ''10''"

section \<open>The memory cache\<close>

text \<open>
  \<open>MemoryCache\<close> holds two insertion-ordered maps: \<open>cache\<close>, from keys to values,
  and \<open>timers\<close>, from keys to the handles of their expiration timeouts. The state
  carries with them what the runtime holds of the timeouts: the clock, in
  milliseconds, the timeouts \<open>scheduled\<close> and not yet fired or cleared (handle, due
  time, and the key that the callback deletes), and the next fresh handle.
\<close>

type_synonym timeout = "nat \<times> nat \<times> string"

record cache_state =
  cache :: "(string \<times> jsval) list"
  timers :: "(string \<times> nat) list"
  scheduled :: "timeout list"
  clock :: nat
  next_handle :: nat

definition empty_cache :: cache_state where
  "empty_cache = \<lparr> cache = [], timers = [], scheduled = [], clock = 0, next_handle = 0 \<rparr>"

text \<open>
  \<open>setTimeout(callback, ms)\<close> of the runtime: a delay below 1 or above
  \<open>2^31 - 1\<close> milliseconds is replaced by 1.
\<close>

definition TIMEOUT_MAX :: int where
  "TIMEOUT_MAX = 2147483647"

definition timeout_delay :: "int \<Rightarrow> nat" where
  "timeout_delay ms = (if 1 \<le> ms \<and> ms \<le> TIMEOUT_MAX then nat ms else 1)"

definition setTimeout :: "string \<Rightarrow> int \<Rightarrow> cache_state \<Rightarrow> nat \<times> cache_state" where
  "setTimeout key ms st =
     (next_handle st,
      st\<lparr> scheduled := scheduled st @ [(next_handle st, clock st + timeout_delay ms, key)],
          next_handle := Suc (next_handle st) \<rparr>)"

definition clearTimeout :: "nat \<Rightarrow> cache_state \<Rightarrow> cache_state" where
  "clearTimeout handle st =
     st\<lparr> scheduled := filter (\<lambda>(h, due, key). h \<noteq> handle) (scheduled st) \<rparr>"

text \<open>The first statement of \<open>set\<close> and of \<open>delete\<close>: clear the timer of the key, if any.\<close>

definition clear_timer :: "string \<Rightarrow> cache_state \<Rightarrow> cache_state" where
  "clear_timer key st =
     (case map_of (timers st) key of
        Some handle \<Rightarrow> (clearTimeout handle st)\<lparr> timers := AList.delete key (timers st) \<rparr>
      | None \<Rightarrow> st)"

definition cache_set :: "string \<Rightarrow> jsval \<Rightarrow> int option \<Rightarrow> cache_state \<Rightarrow> cache_state" where
  "cache_set key val ttl st =
     (let st1 = clear_timer key st;
          st2 = st1\<lparr> cache := AList.update key val (cache st1) \<rparr>
      in case ttl of
           Some ms \<Rightarrow>
             if 0 < ms
             then (let (timer, st3) = setTimeout key ms st2
                   in st3\<lparr> timers := AList.update key timer (timers st3) \<rparr>)
             else st2
         | None \<Rightarrow> st2)"

definition cache_get :: "string \<Rightarrow> cache_state \<Rightarrow> jsval" where
  "cache_get key st = (case map_of (cache st) key of Some v \<Rightarrow> v | None \<Rightarrow> JUndefined)"

definition cache_has :: "string \<Rightarrow> cache_state \<Rightarrow> bool" where
  "cache_has key st = (map_of (cache st) key \<noteq> None)"

definition cache_delete :: "string \<Rightarrow> cache_state \<Rightarrow> bool \<times> cache_state" where
  "cache_delete key st =
     (let st1 = clear_timer key st
      in (cache_has key st1, st1\<lparr> cache := AList.delete key (cache st1) \<rparr>))"

definition cache_clear :: "cache_state \<Rightarrow> cache_state" where
  "cache_clear st =
     (fold (\<lambda>(key, timer). clearTimeout timer) (timers st) st)\<lparr> timers := [], cache := [] \<rparr>"

definition cache_stats :: "cache_state \<Rightarrow> nat \<times> string list" where
  "cache_stats st = (length (cache st), map fst (cache st))"

text \<open>
  A timeout fires: if it is still scheduled, the runtime drops it and runs its
  callback, \<open>this.delete(key)\<close>. Letting \<open>ms\<close> milliseconds go by with the event
  loop idle fires the timeouts that fall due, in the order of their due times (in the
  order of their scheduling when these are equal).
\<close>

definition fire :: "nat \<Rightarrow> cache_state \<Rightarrow> cache_state" where
  "fire handle st =
     (case find (\<lambda>(h, due, key). h = handle) (scheduled st) of
        Some (h, due, key) \<Rightarrow> snd (cache_delete key (clearTimeout handle st))
      | None \<Rightarrow> st)"

definition elapse :: "nat \<Rightarrow> cache_state \<Rightarrow> cache_state" where
  "elapse ms st =
     (let t = clock st + ms;
          due = sort_key (\<lambda>(handle, due, key). due)
                  (filter (\<lambda>(handle, due, key). due \<le> t) (scheduled st))
      in (fold fire (map fst due) st)\<lparr> clock := t \<rparr>)"

text \<open>The operations a client of the cache can interleave, time going by included.\<close>

datatype cache_op =
    Set string jsval "int option"
  | Delete string
  | Clear
  | Elapse nat

fun apply_op :: "cache_op \<Rightarrow> cache_state \<Rightarrow> cache_state" where
  "apply_op (Set key val ttl) st = cache_set key val ttl st"
| "apply_op (Delete key) st = snd (cache_delete key st)"
| "apply_op Clear st = cache_clear st"
| "apply_op (Elapse ms) st = elapse ms st"

text \<open>
  What holds of the states that the operations reach from the empty cache: a scheduled
  timeout is the timer that \<open>timers\<close> records for its key, no two keys share a
  handle, and the handles in use are below the next fresh one.
\<close>

definition cache_inv :: "cache_state \<Rightarrow> bool" where
  "cache_inv st \<longleftrightarrow>
     (\<forall>(h, due, key) \<in> set (scheduled st). map_of (timers st) key = Some h)
     \<and> (\<forall>k k' h. map_of (timers st) k = Some h \<and> map_of (timers st) k' = Some h \<longrightarrow> k = k')
     \<and> (\<forall>k h. map_of (timers st) k = Some h \<longrightarrow> h < next_handle st)"

text \<open>No timeout is scheduled for the key \<open>k\<close>.\<close>

definition unscheduled :: "string \<Rightarrow> cache_state \<Rightarrow> bool" where
  "unscheduled k st \<longleftrightarrow> (\<forall>(h, due, key) \<in> set (scheduled st). key \<noteq> k)"

text \<open>An operation that writes, deletes or clears the key \<open>k\<close>.\<close>

fun touches :: "string \<Rightarrow> cache_op \<Rightarrow> bool" where
  "touches k (Set key val ttl) = (key = k)"
| "touches k (Delete key) = (key = k)"
| "touches k Clear = True"
| "touches k (Elapse ms) = False"

section \<open>The Wikipedia service\<close>

text \<open>
  What a request of the HTTP client comes back with: a response with its \<open>data\<close>, an
  error that carries a response with a status, or an error with no response at all (a
  timeout, a network failure).
\<close>

datatype http_outcome = Response jsval | HttpError nat | NetworkError

datatype request_error = NoTrimMethod | RequestFailed "nat option"

text \<open>\<open>s.lastIndexOf(c)\<close>: the index of the last \<open>c\<close> in \<open>s\<close>, or \<open>-1\<close>.\<close>

definition lastIndexOf :: "string \<Rightarrow> char \<Rightarrow> int" where
  "lastIndexOf s c =
     (if c \<in> set s then int (length s) - 1 - int (length (takeWhile (\<lambda>x. x \<noteq> c) (rev s)))
      else - 1)"

text \<open>The clean-up of an extract in \<open>_processQueue\<close>.\<close>

definition cleanExtract :: "string \<Rightarrow> string" where
  "cleanExtract e =
     (let extract = trim e
      in if length extract > 300
         then (let extract = trim (take 300 extract);
                   lastPeriod = lastIndexOf extract CHR ''.''
               in if lastPeriod > 200 then take (nat (lastPeriod + 1)) extract
                  else extract @ ''...'')
         else extract)"

text \<open>
  The body of the loop of \<open>_processQueue\<close> for one request, from the outcome of
  \<open>client.get\<close> to the settling of the promise: \<open>Inr v\<close> is \<open>resolve(v)\<close> and
  \<open>Inl e\<close> is \<open>reject(e)\<close>. An extract that is not a string has no method
  \<open>trim\<close>: the call throws inside the \<open>try\<close>, the error has no \<open>response\<close>, and
  the promise is rejected.
\<close>

definition settle :: "http_outcome \<Rightarrow> request_error + jsval" where
  "settle outcome =
     (case outcome of
        Response data \<Rightarrow>
          if truthy data \<and> truthy (getProp data ''extract'')
          then (case getProp data ''extract'' of
                  JStr e \<Rightarrow> Inr (JStr (cleanExtract e))
                | _ \<Rightarrow> Inl NoTrimMethod)
          else Inr JNull
      | HttpError status \<Rightarrow>
          if status = 404 then Inr JNull else Inl (RequestFailed (Some status))
      | NetworkError \<Rightarrow> Inl (RequestFailed None))"

text \<open>
  One call of \<open>getCityDescription\<close>, taken alone. \<open>client\<close> gives the outcome of
  the request for each title. The result is the value returned, the cache after the
  call, and the titles passed to \<open>_fetchDescriptionByTitle\<close>, that is the requests
  put on the queue, in order. The clock of the cache does not move during the call.
\<close>

fun trySearchTerms ::
  "(string \<Rightarrow> http_outcome) \<Rightarrow> string \<Rightarrow> string list \<Rightarrow> cache_state \<Rightarrow> string list
     \<Rightarrow> jsval \<times> cache_state \<times> string list" where
  "trySearchTerms client cacheKey [] st requests =
     (JNull, cache_set cacheKey JNull (Some (60 * 60 * 1000)) st, requests)"
| "trySearchTerms client cacheKey (searchTerm # rest) st requests =
     (case settle (client searchTerm) of
        Inr description \<Rightarrow>
          if truthy description
          then (description,
                cache_set cacheKey description (Some (24 * 60 * 60 * 1000)) st,
                requests @ [searchTerm])
          else trySearchTerms client cacheKey rest st (requests @ [searchTerm])
      | Inl error \<Rightarrow> trySearchTerms client cacheKey rest st (requests @ [searchTerm]))"

definition searchTerms :: "string \<Rightarrow> string \<Rightarrow> string list" where
  "searchTerms cityName countryName =
     [cityName, cityName @ '', '' @ countryName, cityName @ '' '' @ countryName]"

definition cacheKeyOf :: "string \<Rightarrow> string \<Rightarrow> string" where
  "cacheKeyOf cityName countryName = toLowerCase (''wiki_'' @ cityName @ ''_'' @ countryName)"

definition getCityDescription ::
  "(string \<Rightarrow> http_outcome) \<Rightarrow> string \<Rightarrow> string \<Rightarrow> cache_state
     \<Rightarrow> jsval \<times> cache_state \<times> string list" where
  "getCityDescription client cityName countryName st =
     (let cacheKey = cacheKeyOf cityName countryName;
          cachedDescription = cache_get cacheKey st
      in if truthy cachedDescription then (cachedDescription, st, [])
         else trySearchTerms client cacheKey (searchTerms cityName countryName) st [])"

text \<open>Two clients for the examples: one that finds no page, one that fails on the bare city name.\<close>

definition always_404 :: "string \<Rightarrow> http_outcome" where
  "always_404 title = HttpError 404"

definition berlin_500 :: "string \<Rightarrow> http_outcome" where
  "berlin_500 title =
     (if title = ''Berlin'' then HttpError 500
      else Response (JObj [(''extract'', JStr ''Berlin is the capital of Germany.'')]))"

text \<open>A title whose lookup yields a description that is not empty.\<close>

definition usable :: "(string \<Rightarrow> http_outcome) \<Rightarrow> string \<Rightarrow> bool" where
  "usable client title =
     (case settle (client title) of Inr description \<Rightarrow> truthy description | Inl error \<Rightarrow> False)"

definition descriptionOf :: "(string \<Rightarrow> http_outcome) \<Rightarrow> string \<Rightarrow> jsval" where
  "descriptionOf client title =
     (case settle (client title) of Inr description \<Rightarrow> description | Inl error \<Rightarrow> JNull)"

subsection \<open>The request queue\<close>

text \<open>
  The service holds \<open>requestQueue\<close>, \<open>isProcessing\<close> and \<open>minRequestInterval\<close>.
  The runtime is single-threaded: code runs from one \<open>await\<close> to the next without
  interruption, and an invocation of \<open>_processQueue\<close> that has passed its guard is
  suspended either at \<open>await this.client.get(...)\<close>, with a request in flight, or at
  \<open>await this._delay(...)\<close>, until the timeout falls due. The state lists these
  suspended invocations in \<open>loops\<close>, and records for the properties the time, in
  milliseconds, the requests in the order of their \<open>push\<close>, the time and request of
  every \<open>client.get\<close>, and how each promise was settled. A request is a title with
  the number of the promise given back to the caller.
\<close>

type_synonym request = "string \<times> nat"

datatype drain_loop = AwaitingGet request | AwaitingDelay nat

record wikipedia_service =
  requestQueue :: "request list"
  isProcessing :: bool
  minRequestInterval :: nat
  loops :: "drain_loop list"
  now :: nat
  enqueued :: "request list"
  dispatched :: "(nat \<times> request) list"
  settlements :: "(nat \<times> (request_error + jsval)) list"
  next_promise :: nat

definition new_service :: wikipedia_service where
  "new_service =
     \<lparr> requestQueue = [], isProcessing = False, minRequestInterval = 100, loops = [],
       now = 0, enqueued = [], dispatched = [], settlements = [], next_promise = 0 \<rparr>"

text \<open>
  From the test of the \<open>while\<close> loop to the next suspension: with a request in the
  queue, \<open>shift\<close> it and call \<open>client.get\<close>; with none, leave the loop and reset
  the flag.
\<close>

definition loop_head :: "wikipedia_service \<Rightarrow> drain_loop option \<times> wikipedia_service" where
  "loop_head sv =
     (case requestQueue sv of
        [] \<Rightarrow> (None, sv\<lparr> isProcessing := False \<rparr>)
      | r # rest \<Rightarrow>
          (Some (AwaitingGet r),
           sv\<lparr> requestQueue := rest, dispatched := dispatched sv @ [(now sv, r)] \<rparr>))"

definition processQueue :: "wikipedia_service \<Rightarrow> wikipedia_service" where
  "processQueue sv =
     (if isProcessing sv \<or> requestQueue sv = [] then sv
      else (let (l, sv1) = loop_head (sv\<lparr> isProcessing := True \<rparr>)
            in sv1\<lparr> loops := loops sv1 @ (case l of Some x \<Rightarrow> [x] | None \<Rightarrow> []) \<rparr>))"

definition fetchDescriptionByTitle :: "string \<Rightarrow> wikipedia_service \<Rightarrow> nat \<times> wikipedia_service" where
  "fetchDescriptionByTitle title sv =
     (next_promise sv,
      processQueue
        (sv\<lparr> requestQueue := requestQueue sv @ [(title, next_promise sv)],
             enqueued := enqueued sv @ [(title, next_promise sv)],
             next_promise := Suc (next_promise sv) \<rparr>))"

text \<open>
  What can happen next: a caller fetches a title; the request in flight of the
  suspended invocation number \<open>i\<close> comes back, the promise is settled and the delay
  starts; the delay of invocation \<open>i\<close> is over, which cannot be before its due time,
  and the loop goes round; time passes.
\<close>

datatype event =
    Fetch string
  | GetSettles nat http_outcome
  | DelayElapses nat
  | TimePasses nat

definition step :: "event \<Rightarrow> wikipedia_service \<Rightarrow> wikipedia_service option" where
  "step ev sv =
     (case ev of
        Fetch title \<Rightarrow> Some (snd (fetchDescriptionByTitle title sv))
      | GetSettles i outcome \<Rightarrow>
          if i < length (loops sv)
          then (case loops sv ! i of
                  AwaitingGet r \<Rightarrow>
                    Some (sv\<lparr> settlements := settlements sv @ [(snd r, settle outcome)],
                              loops := (loops sv)[i := AwaitingDelay (now sv + minRequestInterval sv)] \<rparr>)
                | AwaitingDelay due \<Rightarrow> None)
          else None
      | DelayElapses i \<Rightarrow>
          if i < length (loops sv)
          then (case loops sv ! i of
                  AwaitingDelay due \<Rightarrow>
                    if due \<le> now sv
                    then (let (l, sv1) = loop_head sv
                          in Some (sv1\<lparr> loops :=
                                (case l of
                                   Some x \<Rightarrow> (loops sv1)[i := x]
                                 | None \<Rightarrow> take i (loops sv1) @ drop (Suc i) (loops sv1)) \<rparr>))
                    else None
                | AwaitingGet r \<Rightarrow> None)
          else None
      | TimePasses ms \<Rightarrow> Some (sv\<lparr> now := now sv + ms \<rparr>))"

fun run :: "event list \<Rightarrow> wikipedia_service \<Rightarrow> wikipedia_service option" where
  "run [] sv = Some sv"
| "run (ev # evs) sv = (case step ev sv of None \<Rightarrow> None | Some sv' \<Rightarrow> run evs sv')"

text \<open>Times that are at least \<open>m\<close> apart, each from the next.\<close>

fun spaced :: "nat \<Rightarrow> nat list \<Rightarrow> bool" where
  "spaced m [] = True"
| "spaced m [t] = True"
| "spaced m (t # u # ts) = (t + m \<le> u \<and> spaced m (u # ts))"

fun in_flight :: "drain_loop \<Rightarrow> bool" where
  "in_flight (AwaitingGet r) = True"
| "in_flight (AwaitingDelay due) = False"

text \<open>
  What holds of the states that the service reaches: at most one invocation is inside
  the loop, exactly when the flag is set; the requests sent and those still queued make
  up the requests enqueued, in order; the sending times are spaced, lie in the past,
  and the last one lies a full interval before the end of a running delay, and before
  the present when no invocation is left.
\<close>

definition service_inv :: "wikipedia_service \<Rightarrow> bool" where
  "service_inv sv \<longleftrightarrow>
     length (loops sv) \<le> 1
     \<and> (isProcessing sv \<longleftrightarrow> loops sv \<noteq> [])
     \<and> enqueued sv = map snd (dispatched sv) @ requestQueue sv
     \<and> spaced (minRequestInterval sv) (map fst (dispatched sv))
     \<and> (\<forall>t \<in> set (map fst (dispatched sv)). t \<le> now sv)
     \<and> (loops sv = [] \<longrightarrow> (\<forall>t \<in> set (map fst (dispatched sv)). t + minRequestInterval sv \<le> now sv))
     \<and> (\<forall>due. loops sv = [AwaitingDelay due] \<longrightarrow>
           (\<forall>t \<in> set (map fst (dispatched sv)). t + minRequestInterval sv \<le> due))"

section \<open>Properties of the data validator\<close>

lemmas pattern_defs =
  invalidPatterns_def pat_pure_numbers_def pat_no_letters_def pat_whitespace_def
  pat_test_data_def pat_null_indicator_def pat_special_chars_def pat_admin_division_def

lemmas char_defs =
  isDigit_def isLetter_def isUpper_def isSpace_def foldAscii_def lowerChar_def
  char_of_def bit_Suc_0_iff

subsection \<open>Rounding to binary64\<close>

lemma bitLength_le: "n < 2 ^ k \<Longrightarrow> bitLength n \<le> k"
proof (induction k arbitrary: n)
  case 0
  then show ?case by (simp add: bitLength.simps)
next
  case (Suc k)
  show ?case
  proof (cases "n = 0")
    case True
    then show ?thesis by (simp add: bitLength.simps)
  next
    case False
    from Suc.prems have "n div 2 < 2 ^ k" by simp
    then have "bitLength (n div 2) \<le> k" by (rule Suc.IH)
    with False show ?thesis by (subst bitLength.simps) simp
  qed
qed

lemma ilog2_le_9:
  assumes "(a :: rat) \<le> 1000"
  shows "ilog2 a \<le> 9"
proof (cases "1 \<le> a")
  case True
  define k where "k = \<lfloor>a\<rfloor>"
  have "\<lfloor>a\<rfloor> \<le> \<lfloor>1000 :: rat\<rfloor>"
    using assms by (rule floor_mono)
  then have "k \<le> 1000" by (simp add: k_def)
  then have "nat k < 2 ^ 10" by simp
  then have "nat \<lfloor>a\<rfloor> < 2 ^ 10" by (simp only: k_def)
  then have "bitLength (nat \<lfloor>a\<rfloor>) \<le> 10" by (rule bitLength_le)
  with True show ?thesis by (simp add: ilog2_def)
next
  case False
  then show ?thesis by (simp add: ilog2_def)
qed

lemma roundHalfEven_nonneg: "0 \<le> x \<Longrightarrow> 0 \<le> roundHalfEven x"
  by (simp add: roundHalfEven_def Let_def)

lemma roundHalfEven_le:
  assumes "(x :: rat) \<le> of_int k"
  shows "roundHalfEven x \<le> k"
proof -
  have "\<lfloor>x\<rfloor> \<le> \<lfloor>of_int k :: rat\<rfloor>"
    using assms by (rule floor_mono)
  then have f: "\<lfloor>x\<rfloor> \<le> k" by (simp only: floor_of_int)
  have "\<lfloor>x\<rfloor> + 1 \<le> k" if "0 < x - of_int \<lfloor>x\<rfloor>"
  proof -
    from that have "of_int \<lfloor>x\<rfloor> < x" by simp
    with assms have "(of_int \<lfloor>x\<rfloor> :: rat) < of_int k" by linarith
    then show ?thesis by simp
  qed
  with f show ?thesis
    by (auto simp: roundHalfEven_def Let_def not_less)
qed

lemma roundMagnitude_range:
  assumes "0 \<le> a" and "a \<le> 1000"
  shows "0 \<le> roundMagnitude a \<and> roundMagnitude a \<le> 1000"
proof (cases "a = 0")
  case True
  then show ?thesis by (simp add: roundMagnitude_def)
next
  case False
  define e where "e = max (ilog2 a) (- 1022)"
  define j where "j = nat (52 - e)"
  have "e \<le> 9"
    using ilog2_le_9 [OF assms(2)] by (simp add: e_def)
  then have q: "pow2 (e - 52) = 1 / 2 ^ j"
    by (simp add: pow2_def j_def)
  have r: "roundMagnitude a = of_int (roundHalfEven (a * 2 ^ j)) / 2 ^ j"
    using False by (simp add: roundMagnitude_def Let_def e_def [symmetric] q)
  have "0 \<le> a * 2 ^ j"
    using assms(1) by simp
  then have lo: "0 \<le> roundHalfEven (a * 2 ^ j)"
    by (rule roundHalfEven_nonneg)
  have "a * 2 ^ j \<le> 1000 * 2 ^ j"
    using assms(2) by simp
  also have "\<dots> = of_int (1000 * 2 ^ j)" by simp
  finally have "roundHalfEven (a * 2 ^ j) \<le> 1000 * 2 ^ j"
    by (rule roundHalfEven_le)
  then have "(of_int (roundHalfEven (a * 2 ^ j)) :: rat) \<le> of_int (1000 * 2 ^ j)"
    by (simp only: of_int_le_iff)
  then have hi: "(of_int (roundHalfEven (a * 2 ^ j)) :: rat) / 2 ^ j \<le> 1000"
    by (simp add: divide_le_eq)
  from lo hi show ?thesis
    unfolding r by simp
qed

lemma toDouble_range:
  assumes "0 \<le> v" and "v \<le> 1000"
  shows "\<exists>r. toDouble v = Fin r \<and> 0 \<le> r \<and> r \<le> 1000"
proof -
  from assms have "\<bar>v\<bar> = v" by simp
  with roundMagnitude_range [OF assms]
  have "0 \<le> roundMagnitude \<bar>v\<bar>" and "roundMagnitude \<bar>v\<bar> \<le> 1000" by simp_all
  moreover from this have "\<not> 2 ^ 1024 \<le> roundMagnitude \<bar>v\<bar>" by simp
  ultimately show ?thesis
    using assms(1) by (simp add: toDouble_def Let_def)
qed

lemma scanDecimal_not_Infinity:
  assumes "scanDecimal u = Some x"
  shows "\<not> prefix ''Infinity'' u"
proof
  assume "prefix ''Infinity'' u"
  then obtain w where "u = ''Infinity'' @ w"
    by (auto simp: prefix_def)
  then have "scanDecimal u = None"
    by (simp add: scanDecimal_def isDigit_def)
  with assms show False by simp
qed

lemma parseFloat_decimal:
  assumes "scanSign (dropWhile isSpace s) = (neg, u)" and "scanDecimal u = Some (v, rest)"
  shows "parseFloat s = toDouble (if neg then - v else v)"
  using assms scanDecimal_not_Infinity [OF assms(2)]
  by (simp add: parseFloat_def)

subsection \<open>Names\<close>

lemma digit_not_letter: "isDigit c \<Longrightarrow> \<not> isLetter c"
  by (auto simp: isDigit_def isLetter_def Let_def)

lemma punct_not_letter: "isPunct c \<Longrightarrow> \<not> isLetter c"
  by (auto simp: isPunct_def isLetter_def Let_def)

lemma no_letters_rejected:
  assumes "list_all (\<lambda>c. \<not> isLetter c) (trim s)"
  shows "\<not> isValidCityName (JStr s)"
  using assms by (simp add: isValidCityName_def Let_def pattern_defs)

lemma placeholder_rejected:
  assumes "map foldAscii (trim s) \<in> set placeholderTokens"
  shows "\<not> isValidCityName (JStr s)"
proof -
  from assms have "pat_test_data (trim s) \<or> pat_null_indicator (trim s)"
    unfolding pat_test_data_def pat_null_indicator_def placeholderTokens_def by auto
  then show ?thesis
    by (auto simp: isValidCityName_def Let_def invalidPatterns_def)
qed

lemma invalid_name_not_city:
  assumes "\<not> isValidCityName (getProp entry ''name'')"
  shows "isValidCity entry = Inr False"
  using assms by (simp add: isValidCity_def Let_def)

lemma trim_Nil: "trim [] = []"
  by (simp add: trim_def)

lemma valid_name_string:
  assumes "isValidCityName nm"
  obtains s where "nm = JStr s" and "s \<noteq> []"
proof (cases nm)
  case (JStr s)
  with assms have "trim s \<noteq> []"
    by (auto simp: isValidCityName_def Let_def split: if_splits)
  then have "s \<noteq> []"
    using trim_Nil by auto
  with JStr that show ?thesis by blast
qed (use assms in \<open>simp_all add: isValidCityName_def\<close>)

lemma valid_name_truthy:
  assumes "isValidCityName nm"
  shows "truthy nm"
  using assms by (rule valid_name_string) simp

subsection \<open>The pollution predicate\<close>

lemma toNumber_JNum [simp]: "toNumber (JNum n) = Inr n"
  by (simp add: toNumber_def)

lemma pollution_of_number:
  assumes "toNumber v = Inr n"
  shows "(case isNaN v of
           Inl err \<Rightarrow> Inl err
         | Inr nan \<Rightarrow>
             if nan then Inr False
             else (case isFinite v of
                     Inl err \<Rightarrow> Inl err
                   | Inr fin \<Rightarrow>
                       if \<not> fin then Inr False
                       else (case lessThanNumber v (Fin 0) of
                               Inl err \<Rightarrow> Inl err
                             | Inr negative \<Rightarrow>
                                 if negative then Inr False
                                 else (case greaterThanNumber v (Fin 1000) of
                                         Inl err \<Rightarrow> Inl err
                                       | Inr large \<Rightarrow> if large then Inr False else Inr True))))
         = Inr (\<exists>r. n = Fin r \<and> 0 \<le> r \<and> r \<le> 1000)"
  using assms
  by (cases n) (auto simp: isNaN_def isFinite_def lessThanNumber_def greaterThanNumber_def)

lemma pollution_number_eq:
  "isValidPollutionValue (JNum n) = Inr (\<exists>r. n = Fin r \<and> 0 \<le> r \<and> r \<le> 1000)"
  unfolding isValidPollutionValue_def Let_def jsval.case
  by (rule pollution_of_number) simp

lemma pollution_string_eq:
  "isValidPollutionValue (JStr s) = Inr (\<exists>r. parseFloat s = Fin r \<and> 0 \<le> r \<and> r \<le> 1000)"
  unfolding isValidPollutionValue_def Let_def jsval.case
  by (rule pollution_of_number) simp

lemma pollution_throws:
  assumes "toPrimitiveThrows p"
  shows "isValidPollutionValue p = Inl TypeError"
  using assms
  by (cases p) (simp_all add: isValidPollutionValue_def isNaN_def toNumber_def)

lemma pollution_returns:
  assumes "\<not> toPrimitiveThrows p"
  shows "\<exists>b. isValidPollutionValue p = Inr b"
proof (cases "\<exists>s. p = JStr s")
  case True
  then show ?thesis by (auto simp: pollution_string_eq)
next
  case False
  then have "(case p of JStr s \<Rightarrow> JNum (parseFloat s) | _ \<Rightarrow> p) = p"
    by (cases p) simp_all
  moreover have "toNumber p = Inr (numberOf p)"
    using assms by (simp add: toNumber_def)
  ultimately show ?thesis
    unfolding isValidPollutionValue_def Let_def
    by (simp only: pollution_of_number) blast
qed

subsection \<open>The gate\<close>

lemma isValidCity_iff:
  "isValidCity entry = Inr True \<longleftrightarrow>
     truthy entry \<and> typeof_object entry
     \<and> truthy (getProp entry ''name'')
     \<and> getProp entry ''pollution'' \<noteq> JUndefined \<and> getProp entry ''pollution'' \<noteq> JNull
     \<and> isValidCityName (getProp entry ''name'')
     \<and> isValidPollutionValue (getProp entry ''pollution'') = Inr True"
  by (auto simp: isValidCity_def Let_def split: sum.splits)

lemma isValidCity_named:
  assumes "map_of fs ''name'' = Some nm" and "isValidCityName nm"
    and "map_of fs ''pollution'' = Some p" and "p \<noteq> JUndefined" and "p \<noteq> JNull"
  shows "isValidCity (JObj fs) = (case isValidPollutionValue p of
           Inl err \<Rightarrow> Inl err | Inr valid \<Rightarrow> Inr valid)"
  using assms valid_name_truthy [OF assms(2)]
  by (auto simp: isValidCity_def Let_def split: sum.splits)

lemma isValidCity_returns:
  assumes "\<not> toPrimitiveThrows (getProp entry ''pollution'')"
  shows "\<exists>b. isValidCity entry = Inr b"
  using pollution_returns [OF assms]
  by (auto simp: isValidCity_def Let_def split: sum.splits)

lemma normalizeCity_returns:
  assumes "isValidCity entry = Inr True"
    and "\<not> toPrimitiveThrows (getProp entry ''country'')"
    and "\<not> toPrimitiveThrows (getProp entry ''pollution'')"
  shows "\<exists>city. normalizeCity ns entry = Inr city"
proof -
  from assms(1) have e: "truthy entry" and nm: "isValidCityName (getProp entry ''name'')"
    by (simp_all add: isValidCity_iff)
  from nm obtain s where "getProp entry ''name'' = JStr s"
    by (rule valid_name_string)
  moreover from e have "entry \<noteq> JUndefined" and "entry \<noteq> JNull"
    by auto
  ultimately show ?thesis
    using assms(2,3) by (simp add: normalizeCity_def toString_def parseFloatVal_def)
qed

lemma filterEntries_returns:
  assumes "\<forall>entry \<in> set entries. \<not> toPrimitiveThrows (getProp entry ''country'')
             \<and> \<not> toPrimitiveThrows (getProp entry ''pollution'')"
  shows "\<exists>cities. filterEntries ns entries acc = Inr cities"
  using assms
proof (induction entries arbitrary: acc)
  case Nil
  show ?case by simp
next
  case (Cons entry rest)
  then have c: "\<not> toPrimitiveThrows (getProp entry ''country'')"
    and p: "\<not> toPrimitiveThrows (getProp entry ''pollution'')"
    and r: "\<forall>entry \<in> set rest. \<not> toPrimitiveThrows (getProp entry ''country'')
             \<and> \<not> toPrimitiveThrows (getProp entry ''pollution'')"
    by simp_all
  from isValidCity_returns [OF p] obtain b where b: "isValidCity entry = Inr b" by blast
  show ?case
  proof (cases b)
    case True
    with b have "isValidCity entry = Inr True" by simp
    from normalizeCity_returns [OF this c p, of ns] obtain city
      where "normalizeCity ns entry = Inr city" by blast
    with True b Cons.IH [OF r, of "acc @ [city]"] show ?thesis by simp
  next
    case False
    with b Cons.IH [OF r, of acc] show ?thesis by simp
  qed
qed

subsection \<open>Rounding of particular values\<close>

lemma floor_rat_numeral: "\<lfloor>numeral a / numeral b :: rat\<rfloor> = numeral a div numeral b"
  using floor_divide_of_int_eq [of "numeral a" "numeral b", where ?'a = rat] by simp

lemma ceiling_rat_numeral: "\<lceil>numeral a / numeral b :: rat\<rceil> = - (- numeral a div numeral b)"
  using floor_divide_of_int_eq [of "- numeral a" "numeral b", where ?'a = rat]
  by (simp add: ceiling_def)

lemma floor_rat_one_numeral: "\<lfloor>1 / numeral b :: rat\<rfloor> = 1 div numeral b"
  using floor_divide_of_int_eq [of 1 "numeral b", where ?'a = rat] by simp

lemma ceiling_rat_one_numeral: "\<lceil>1 / numeral b :: rat\<rceil> = - (- 1 div numeral b)"
  using floor_divide_of_int_eq [of "- 1" "numeral b", where ?'a = rat]
  by (simp add: ceiling_def)

lemmas double_defs =
  toDouble_def roundMagnitude_def roundHalfEven_def ilog2_def pow2_def bitLength.simps Let_def
  floor_rat_numeral ceiling_rat_numeral floor_rat_one_numeral ceiling_rat_one_numeral

lemmas number_defs =
  parseFloat_def scanSign_def scanDecimal_def scanExponent_def digitsVal_def pow10_def
  isDigit_def isSpace_def

text \<open>The literals \<open>-0.1\<close>, \<open>1000.1\<close> and \<open>51.3\<close> as binary64 numbers.\<close>

lemma toDouble_tenth: "toDouble (- (1 / 10)) = Fin (- (3602879701896397 / 36028797018963968))"
  by (simp add: double_defs)

lemma toDouble_1000_1: "toDouble (10001 / 10) = Fin (8796972631510221 / 8796093022208)"
  by (simp add: double_defs)

lemma toDouble_51_3: "toDouble (513 / 10) = Fin (3609916576314163 / 70368744177664)"
  by (simp add: double_defs)

lemma parseFloat_examples:
  "parseFloat ''0'' = Fin 0"
  "parseFloat ''1000'' = Fin 1000"
  "parseFloat ''51.3'' = Fin (3609916576314163 / 70368744177664)"
  "parseFloat ''-0.1'' = Fin (- (3602879701896397 / 36028797018963968))"
  "parseFloat ''1000.1'' = Fin (8796972631510221 / 8796093022208)"
  "parseFloat ''abc'' = NaN"
  "parseFloat ''Infinity'' = PosInf"
  "parseFloat ''1000.00000000000000001'' = Fin 1000"
  by (simp_all add: number_defs double_defs)

lemma bitLength_gt: "2 ^ k \<le> n \<Longrightarrow> k < bitLength n"
proof (induction k arbitrary: n)
  case 0
  then have "n \<noteq> 0" by auto
  then show ?case by (subst bitLength.simps) simp
next
  case (Suc k)
  have "(0 :: nat) < 2 ^ Suc k" by simp
  with Suc.prems have "n \<noteq> 0" by linarith
  from Suc.prems have "2 ^ k \<le> n div 2" by simp
  then have "k < bitLength (n div 2)" by (rule Suc.IH)
  with \<open>n \<noteq> 0\<close> show ?case by (subst bitLength.simps) simp
qed

lemma bitLength_bounds:
  assumes "0 < n"
  shows "2 ^ (bitLength n - 1) \<le> n \<and> n < 2 ^ bitLength n"
proof -
  have up: "n < 2 ^ bitLength n"
  proof (rule ccontr)
    assume "\<not> n < 2 ^ bitLength n"
    then have "2 ^ bitLength n \<le> n" by simp
    then have "bitLength n < bitLength n" by (rule bitLength_gt)
    then show False by simp
  qed
  have lo: "2 ^ (bitLength n - 1) \<le> n"
  proof (rule ccontr)
    assume "\<not> 2 ^ (bitLength n - 1) \<le> n"
    then have "n < 2 ^ (bitLength n - 1)" by simp
    then have "bitLength n \<le> bitLength n - 1" by (rule bitLength_le)
    moreover have "0 < bitLength n"
      using assms by (subst bitLength.simps) simp
    ultimately show False by simp
  qed
  from lo up show ?thesis ..
qed

text \<open>\<open>ilog2\<close> finds the power of two at or below a positive number.\<close>

lemma ilog2_bounds:
  assumes "0 < a"
  shows "pow2 (ilog2 a) \<le> a \<and> a < pow2 (ilog2 a + 1)"
proof (cases "1 \<le> a")
  case True
  define n where "n = nat \<lfloor>a\<rfloor>"
  have fl: "1 \<le> \<lfloor>a\<rfloor>"
    using True by simp
  then have n: "0 < n" and na: "of_nat n \<le> a" and an: "a < of_nat n + 1"
    by (simp_all add: n_def) linarith+
  from bitLength_bounds [OF n] have lo: "2 ^ (bitLength n - 1) \<le> n" and up: "n < 2 ^ bitLength n"
    by simp_all
  have b: "0 < bitLength n"
    using n by (subst bitLength.simps) simp
  have e: "ilog2 a = int (bitLength n) - 1"
    using True by (simp add: ilog2_def n_def)
  have "(2 :: rat) ^ (bitLength n - 1) = of_nat (2 ^ (bitLength n - 1))"
    by simp
  also have "\<dots> \<le> of_nat n"
    using lo by (simp only: of_nat_le_iff)
  finally have l: "(2 :: rat) ^ (bitLength n - 1) \<le> a"
    using na by linarith
  from up have "Suc n \<le> 2 ^ bitLength n" by simp
  then have "(of_nat (Suc n) :: rat) \<le> of_nat (2 ^ bitLength n)"
    by (simp only: of_nat_le_iff)
  then have "of_nat n + 1 \<le> (of_nat (2 ^ bitLength n) :: rat)"
    by simp
  then have u: "a < 2 ^ bitLength n"
    using an by simp
  have p1: "pow2 (int (bitLength n) - 1) = 2 ^ (bitLength n - 1)"
    using b by (simp add: pow2_def nat_diff_distrib')
  have p2: "pow2 (int (bitLength n) - 1 + 1) = 2 ^ bitLength n"
    by (simp add: pow2_def)
  show ?thesis
    unfolding e p1 p2 using l u by simp
next
  case False
  define k where "k = \<lceil>1 / a\<rceil>"
  define m where "m = nat (k - 1)"
  have inv: "1 < 1 / a"
    using assms False by simp
  have kc: "of_int k - 1 < 1 / a" and ck: "1 / a \<le> of_int k"
    unfolding k_def using ceiling_correct [of "1 / a"] by simp_all
  from inv ck have "(1 :: rat) < of_int k" by linarith
  then have "1 < k" by simp
  then have m: "0 < m" and me: "int m = k - 1"
    by (simp_all add: m_def)
  have mk: "(of_nat m :: rat) = of_int k - 1"
  proof -
    have "(of_nat m :: rat) = of_int (int m)" by simp
    also have "\<dots> = of_int (k - 1)" by (simp only: me)
    finally show ?thesis by simp
  qed
  have lt: "of_nat m < 1 / a"
    using kc by (simp only: mk)
  have le: "1 / a \<le> of_nat m + 1"
    using ck by (simp add: mk)
  from bitLength_bounds [OF m] have lo: "2 ^ (bitLength m - 1) \<le> m" and up: "m < 2 ^ bitLength m"
    by simp_all
  have b: "0 < bitLength m"
    using m by (subst bitLength.simps) simp
  have e: "ilog2 a = - int (bitLength m)"
    using False by (simp only: ilog2_def m_def k_def if_False)
  from up have "Suc m \<le> 2 ^ bitLength m" by simp
  then have "(of_nat (Suc m) :: rat) \<le> of_nat (2 ^ bitLength m)"
    by (simp only: of_nat_le_iff)
  then have "of_nat m + 1 \<le> (of_nat (2 ^ bitLength m) :: rat)"
    by simp
  with le have "1 / a \<le> 2 ^ bitLength m" by simp
  then have l: "1 / 2 ^ bitLength m \<le> a"
    using assms by (simp add: field_simps)
  have "(2 :: rat) ^ (bitLength m - 1) = of_nat (2 ^ (bitLength m - 1))"
    by simp
  also have "\<dots> \<le> of_nat m"
    using lo by (simp only: of_nat_le_iff)
  finally have "(2 :: rat) ^ (bitLength m - 1) < 1 / a"
    using lt by linarith
  then have u: "a < 1 / 2 ^ (bitLength m - 1)"
    using assms by (simp add: field_simps)
  have p1: "pow2 (- int (bitLength m)) = 1 / 2 ^ bitLength m"
    using b by (simp add: pow2_def)
  have p2: "pow2 (- int (bitLength m) + 1) = 1 / 2 ^ (bitLength m - 1)"
    using b by (cases "bitLength m") (simp_all add: pow2_def nat_diff_distrib')
  show ?thesis
    unfolding e p1 p2 using l u by simp
qed

lemma pow2_pos: "0 < pow2 e"
  by (simp add: pow2_def)

lemma pow2_powi: "pow2 e = 2 powi e"
  by (simp add: pow2_def power_int_def field_simps)

lemma pow2_mono: "e1 \<le> e2 \<Longrightarrow> pow2 e1 \<le> pow2 e2"
  unfolding pow2_powi by (rule power_int_increasing) simp_all

text \<open>A magnitude below half the least positive binary64 value rounds to zero.\<close>

lemma roundMagnitude_underflow:
  assumes "0 < a" and "a < 1 / 2 ^ 1075"
  shows "roundMagnitude a = 0"
proof -
  define q where "q = pow2 (max (ilog2 a) (- 1022) - 52)"
  have "pow2 (- 1074) \<le> q"
    unfolding q_def by (rule pow2_mono) simp
  moreover have "pow2 (- 1074) = 1 / 2 ^ 1074"
    by (simp add: pow2_def)
  ultimately have q: "1 / 2 ^ 1074 \<le> q" by simp
  have qpos: "0 < q"
    unfolding q_def by (rule pow2_pos)
  have "a < (1 / 2) * (1 / 2 ^ 1074)"
    using assms(2) by simp
  also have "\<dots> \<le> (1 / 2) * q"
    using q by simp
  finally have d: "a / q < 1 / 2"
    using qpos by (simp add: field_simps)
  have p: "0 < a / q"
    using assms(1) qpos by simp
  define x where "x = a / q"
  have "0 \<le> x" and "x < 1"
    using d p unfolding x_def by linarith+
  then have "\<lfloor>x\<rfloor> = 0"
    by (simp add: floor_eq_iff)
  then have f: "\<lfloor>a / q\<rfloor> = 0"
    by (simp only: x_def)
  have "roundHalfEven (a / q) = 0"
    using d by (simp add: roundHalfEven_def Let_def f)
  then show ?thesis
    using assms(1) by (simp add: roundMagnitude_def Let_def q_def [symmetric])
qed

lemma toDouble_underflow:
  assumes "0 < a" and "a < 1 / 2 ^ 1075"
  shows "toDouble (- a) = Fin 0" and "toDouble a = Fin 0"
  using assms roundMagnitude_underflow [OF assms] by (simp_all add: toDouble_def Let_def)

lemma parseFloat_underflow: "parseFloat ''-1e-400'' = Fin 0"
proof -
  have v: "scanDecimal ''1e-400'' = Some (1 / 10 ^ 400, [])"
    by (simp add: number_defs)
  have "(0 :: rat) < 1 / 10 ^ 400" by simp
  moreover have "(1 :: rat) / 10 ^ 400 < 1 / 2 ^ 1075" by simp
  ultimately have "toDouble (- (1 / 10 ^ 400)) = Fin 0"
    by (rule toDouble_underflow)
  then show ?thesis
    by (simp add: parseFloat_def scanSign_def isSpace_def v)
qed

subsection \<open>The claims on the validator\<close>

text \<open>
  Claim C7. A raw record whose name, once trimmed, is made of digits only, or of
  punctuation only, or is one of the placeholder tokens \<open>test\<close>, \<open>sample\<close>,
  \<open>dummy\<close>, \<open>fake\<close>, \<open>n/a\<close>, \<open>null\<close>, \<open>undefined\<close> in any mix of upper
  and lower case, is rejected by \<open>isValidCity\<close>, and \<open>filterValidCities\<close> drops it.
\<close>

theorem placeholder_names_rejected:
  assumes "getProp entry ''name'' = JStr s"
    and "list_all isDigit (trim s) \<or> list_all isPunct (trim s)
         \<or> map foldAscii (trim s) \<in> set placeholderTokens"
  shows "isValidCity entry = Inr False \<and> filterValidCities ns (JArr [entry]) = Inr []"
proof -
  have "\<not> isValidCityName (JStr s)"
    using assms(2)
  proof (elim disjE)
    assume "list_all isDigit (trim s)"
    then have "list_all (\<lambda>c. \<not> isLetter c) (trim s)"
      by (simp add: list_all_iff digit_not_letter)
    then show ?thesis by (rule no_letters_rejected)
  next
    assume "list_all isPunct (trim s)"
    then have "list_all (\<lambda>c. \<not> isLetter c) (trim s)"
      by (simp add: list_all_iff punct_not_letter)
    then show ?thesis by (rule no_letters_rejected)
  next
    assume "map foldAscii (trim s) \<in> set placeholderTokens"
    then show ?thesis by (rule placeholder_rejected)
  qed
  with assms(1) have "isValidCity entry = Inr False"
    by (simp add: invalid_name_not_city)
  then show ?thesis
    by (simp add: filterValidCities_def)
qed

theorem placeholder_names_rejected_witness:
  "isValidCity (JObj [(''name'', JStr '' 12345 ''), (''country'', JStr ''XX''), (''pollution'', JNum (Fin 10))])
     = Inr False
   \<and> isValidCity (JObj [(''name'', JStr ''?!''), (''country'', JStr ''DE''), (''pollution'', JNum (Fin 10))])
     = Inr False
   \<and> isValidCity (JObj [(''name'', JStr ''Test''), (''country'', JStr ''US''), (''pollution'', JNum (Fin 5))])
     = Inr False
   \<and> isValidCity (JObj [(''name'', JStr ''N/A''), (''country'', JStr ''US''), (''pollution'', JNum (Fin 5))])
     = Inr False"
proof -
  have 1: "list_all isDigit (trim '' 12345 '')"
    by (simp add: trim_def char_defs)
  have 2: "list_all isPunct (trim ''?!'')"
    by (simp add: trim_def char_defs isPunct_def)
  have 3: "map foldAscii (trim ''Test'') \<in> set placeholderTokens"
    by (simp add: trim_def char_defs placeholderTokens_def)
  have 4: "map foldAscii (trim ''N/A'') \<in> set placeholderTokens"
    by (simp add: trim_def char_defs placeholderTokens_def)
  show ?thesis
    using placeholder_names_rejected [of "JObj [(''name'', JStr '' 12345 ''), (''country'', JStr ''XX''), (''pollution'', JNum (Fin 10))]" "'' 12345 ''"]
      placeholder_names_rejected [of "JObj [(''name'', JStr ''?!''), (''country'', JStr ''DE''), (''pollution'', JNum (Fin 10))]" "''?!''"]
      placeholder_names_rejected [of "JObj [(''name'', JStr ''Test''), (''country'', JStr ''US''), (''pollution'', JNum (Fin 5))]" "''Test''"]
      placeholder_names_rejected [of "JObj [(''name'', JStr ''N/A''), (''country'', JStr ''US''), (''pollution'', JNum (Fin 5))]" "''N/A''"]
      1 2 3 4
    by simp
qed

text \<open>
  Claim C10, as the code has it. On an input that is not an array (an object, a
  string, \<open>null\<close>, \<open>undefined\<close>, a number, a boolean) \<open>filterValidCities\<close> returns
  the empty list and throws nothing. On an array it returns a list, provided that in no
  entry the conversion of the country or of the pollution to a primitive value throws.
\<close>

theorem non_array_filters_to_empty:
  "(\<not> isArray rawData \<longrightarrow> filterValidCities ns rawData = Inr [])
   \<and> ((\<forall>entry \<in> set entries. \<not> toPrimitiveThrows (getProp entry ''country'')
                              \<and> \<not> toPrimitiveThrows (getProp entry ''pollution''))
        \<longrightarrow> (\<exists>cities. filterValidCities ns (JArr entries) = Inr cities))"
proof (intro conjI impI)
  assume "\<not> isArray rawData"
  then show "filterValidCities ns rawData = Inr []"
    by (cases rawData) (simp_all add: filterValidCities_def)
next
  assume "\<forall>entry \<in> set entries. \<not> toPrimitiveThrows (getProp entry ''country'')
                              \<and> \<not> toPrimitiveThrows (getProp entry ''pollution'')"
  then show "\<exists>cities. filterValidCities ns (JArr entries) = Inr cities"
    by (simp add: filterValidCities_def filterEntries_returns)
qed

lemma Berlin_valid_name: "isValidCityName (JStr ''Berlin'')"
  by (simp add: isValidCityName_def trim_def pattern_defs char_defs suspiciousWords_def
      toLowerCase_def suffix_to_prefix)

lemma XX_invalid_country: "\<not> isValidCountry (JStr ''XX'')"
  by (simp add: isValidCountry_def trim_def pattern_defs char_defs validCountryCodes_def
      suffix_to_prefix)

lemma ten_valid_pollution: "isValidPollutionValue (JNum (Fin 10)) = Inr True"
  by (simp add: pollution_number_eq)

lemma Berlin_XX_valid:
  "isValidCity (JObj [(''name'', JStr ''Berlin''), (''country'', c), (''pollution'', JNum (Fin 10))])
     = Inr True"
  using Berlin_valid_name ten_valid_pollution by (simp add: isValidCity_iff)

text \<open>
  Claim C10 as stated fails where it says that the function is total: the entry with
  the name Berlin, the pollution 10 and, for country, an object that has a property
  \<open>toString\<close> of its own passes the gate, and \<open>String(city.country)\<close> then throws
  a \<open>TypeError\<close> that nothing catches.
\<close>

theorem filter_throws_counterexample:
  "filterValidCities printTen
     (JArr [JObj [(''name'', JStr ''Berlin''),
                  (''country'', JObj [(''toString'', JNum (Fin 1))]),
                  (''pollution'', JNum (Fin 10))]])
     = Inl TypeError"
  by (simp add: filterValidCities_def Berlin_XX_valid normalizeCity_def toString_def)

theorem non_array_filters_to_empty_witness:
  "\<not> isArray (JObj [(''results'', JArr [])])
   \<and> filterValidCities printTen (JObj [(''results'', JArr [])]) = Inr []
   \<and> filterValidCities printTen (JStr ''Berlin'') = Inr []
   \<and> filterValidCities printTen JNull = Inr []
   \<and> filterValidCities printTen JUndefined = Inr []
   \<and> (\<exists>cities. filterValidCities printTen
         (JArr [JObj [(''name'', JStr ''Berlin''), (''country'', JStr ''XX''),
                      (''pollution'', JNum (Fin 10))], JNull]) = Inr cities)"
proof -
  have "\<forall>entry \<in> set [JObj [(''name'', JStr ''Berlin''), (''country'', JStr ''XX''),
                      (''pollution'', JNum (Fin 10))], JNull].
          \<not> toPrimitiveThrows (getProp entry ''country'')
          \<and> \<not> toPrimitiveThrows (getProp entry ''pollution'')"
    by simp
  with non_array_filters_to_empty [of "JObj [(''results'', JArr [])]" printTen
      "[JObj [(''name'', JStr ''Berlin''), (''country'', JStr ''XX''),
              (''pollution'', JNum (Fin 10))], JNull]"]
    non_array_filters_to_empty [of "JStr ''Berlin''" printTen "[]"]
    non_array_filters_to_empty [of JNull printTen "[]"]
    non_array_filters_to_empty [of JUndefined printTen "[]"]
  show ?thesis by simp
qed

text \<open>
  Claim C8. A raw record is accepted exactly when it is an object, its name is present
  and not empty, its pollution is neither absent nor \<open>null\<close>, and the name predicate
  and the pollution predicate hold. The country is not looked at: two records with the
  same name and the same pollution get the same verdict, whatever their countries.
\<close>

theorem city_gate_ignores_country:
  "(isValidCity entry = Inr True \<longleftrightarrow>
      truthy entry \<and> typeof_object entry
      \<and> truthy (getProp entry ''name'')
      \<and> getProp entry ''pollution'' \<noteq> JUndefined \<and> getProp entry ''pollution'' \<noteq> JNull
      \<and> isValidCityName (getProp entry ''name'')
      \<and> isValidPollutionValue (getProp entry ''pollution'') = Inr True)
   \<and> (map_of fs ''name'' = map_of fs' ''name'' \<and> map_of fs ''pollution'' = map_of fs' ''pollution''
        \<longrightarrow> isValidCity (JObj fs) = isValidCity (JObj fs'))"
proof -
  have "isValidCity (JObj fs) = isValidCity (JObj fs')"
    if "map_of fs ''name'' = map_of fs' ''name''"
      and "map_of fs ''pollution'' = map_of fs' ''pollution''"
    using that by (simp add: isValidCity_def)
  then show ?thesis
    using isValidCity_iff [of entry] by blast
qed

theorem city_gate_ignores_country_witness:
  "isValidCity (JObj [(''name'', JStr ''Berlin''), (''country'', JStr ''XX''), (''pollution'', JNum (Fin 10))])
     = Inr True
   \<and> \<not> isValidCountry (JStr ''XX'')
   \<and> isValidCity (JObj [(''name'', JStr ''Berlin''), (''pollution'', JNum (Fin 10))]) = Inr True
   \<and> \<not> isValidCountry (getProp (JObj [(''name'', JStr ''Berlin''), (''pollution'', JNum (Fin 10))]) ''country'')"
proof -
  let ?e = "JObj [(''name'', JStr ''Berlin''), (''pollution'', JNum (Fin 10))]"
  have "isValidCity ?e = Inr True"
    using city_gate_ignores_country [of ?e] Berlin_valid_name ten_valid_pollution by simp
  moreover have "isValidCity (JObj [(''name'', JStr ''Berlin''), (''country'', JStr ''XX''), (''pollution'', JNum (Fin 10))])
      = isValidCity ?e"
    using city_gate_ignores_country
      [of _ "[(''name'', JStr ''Berlin''), (''country'', JStr ''XX''), (''pollution'', JNum (Fin 10))]"
          "[(''name'', JStr ''Berlin''), (''pollution'', JNum (Fin 10))]"]
    by simp
  ultimately show ?thesis
    using XX_invalid_country by (simp add: isValidCountry_def)
qed

text \<open>
  Claim C6. In a record with a valid name, a pollution given as a number is accepted
  exactly when it is a finite number between 0 and 1000, both ends included, and a
  pollution given as a string exactly when \<open>parseFloat\<close> reads such a number from it;
  a string read as \<open>NaN\<close> or as an infinity is rejected, and a string that starts
  with a decimal literal of a value between 0 and 1000 is accepted. Neither case
  throws. The number that \<open>parseFloat\<close> reads is the binary64 value nearest to the
  decimal literal, and the bounds are tested on that value: \<open>-0.1\<close> and
  \<open>1000.1\<close> are rejected, while \<open>1000.00000000000000001\<close> reads as 1000 and
  \<open>-1e-400\<close> as zero, and both are accepted.
\<close>

theorem pollution_accepted_in_range:
  assumes "map_of fs ''name'' = Some nm" and "isValidCityName nm"
  shows "isValidCity (JObj ((''pollution'', JNum n) # fs))
           = Inr (\<exists>r. n = Fin r \<and> 0 \<le> r \<and> r \<le> 1000)
       \<and> isValidCity (JObj ((''pollution'', JStr s) # fs))
           = Inr (\<exists>r. parseFloat s = Fin r \<and> 0 \<le> r \<and> r \<le> 1000)
       \<and> (parseFloat s \<in> {NaN, PosInf, NegInf}
            \<longrightarrow> isValidCity (JObj ((''pollution'', JStr s) # fs)) = Inr False)
       \<and> (scanSign (dropWhile isSpace s) = (neg, u) \<and> scanDecimal u = Some (v, rest)
            \<and> 0 \<le> (if neg then - v else v) \<and> (if neg then - v else v) \<le> 1000
            \<longrightarrow> isValidCity (JObj ((''pollution'', JStr s) # fs)) = Inr True)"
proof -
  have nm: "map_of ((''pollution'', p) # fs) ''name'' = Some nm" for p
    using assms(1) by simp
  have num: "isValidCity (JObj ((''pollution'', JNum n) # fs))
      = Inr (\<exists>r. n = Fin r \<and> 0 \<le> r \<and> r \<le> 1000)"
    using isValidCity_named [OF nm assms(2), of "JNum n" "JNum n"]
    by (simp add: pollution_number_eq)
  have str: "isValidCity (JObj ((''pollution'', JStr s) # fs))
      = Inr (\<exists>r. parseFloat s = Fin r \<and> 0 \<le> r \<and> r \<le> 1000)"
    using isValidCity_named [OF nm assms(2), of "JStr s" "JStr s"]
    by (simp add: pollution_string_eq)
  have bad: "isValidCity (JObj ((''pollution'', JStr s) # fs)) = Inr False"
    if "parseFloat s \<in> {NaN, PosInf, NegInf}"
    unfolding str using that by auto
  have good: "isValidCity (JObj ((''pollution'', JStr s) # fs)) = Inr True"
    if "scanSign (dropWhile isSpace s) = (neg, u) \<and> scanDecimal u = Some (v, rest)
        \<and> 0 \<le> (if neg then - v else v) \<and> (if neg then - v else v) \<le> 1000"
  proof -
    from that have sg: "scanSign (dropWhile isSpace s) = (neg, u)"
      and sc: "scanDecimal u = Some (v, rest)"
      and lo: "0 \<le> (if neg then - v else v)" and hi: "(if neg then - v else v) \<le> 1000"
      by blast+
    have "parseFloat s = toDouble (if neg then - v else v)"
      using sg sc by (rule parseFloat_decimal)
    moreover have "\<exists>r. toDouble (if neg then - v else v) = Fin r \<and> 0 \<le> r \<and> r \<le> 1000"
      using lo hi by (rule toDouble_range)
    ultimately show ?thesis
      unfolding str by simp
  qed
  from num str bad good show ?thesis by blast
qed

theorem pollution_accepted_in_range_witness:
  "isValidCity (JObj [(''pollution'', JNum (Fin 0)), (''name'', JStr ''Berlin'')]) = Inr True
   \<and> isValidCity (JObj [(''pollution'', JNum (Fin 1000)), (''name'', JStr ''Berlin'')]) = Inr True
   \<and> isValidCity (JObj [(''pollution'', JNum (toDouble (- (1 / 10)))), (''name'', JStr ''Berlin'')]) = Inr False
   \<and> isValidCity (JObj [(''pollution'', JNum (toDouble (10001 / 10))), (''name'', JStr ''Berlin'')]) = Inr False
   \<and> isValidCity (JObj [(''pollution'', JNum NaN), (''name'', JStr ''Berlin'')]) = Inr False
   \<and> isValidCity (JObj [(''pollution'', JNum PosInf), (''name'', JStr ''Berlin'')]) = Inr False
   \<and> isValidCity (JObj [(''pollution'', JStr ''0''), (''name'', JStr ''Berlin'')]) = Inr True
   \<and> isValidCity (JObj [(''pollution'', JStr ''1000''), (''name'', JStr ''Berlin'')]) = Inr True
   \<and> isValidCity (JObj [(''pollution'', JStr ''51.3''), (''name'', JStr ''Berlin'')]) = Inr True
   \<and> isValidCity (JObj [(''pollution'', JStr ''-0.1''), (''name'', JStr ''Berlin'')]) = Inr False
   \<and> isValidCity (JObj [(''pollution'', JStr ''1000.1''), (''name'', JStr ''Berlin'')]) = Inr False
   \<and> isValidCity (JObj [(''pollution'', JStr ''abc''), (''name'', JStr ''Berlin'')]) = Inr False
   \<and> isValidCity (JObj [(''pollution'', JStr ''Infinity''), (''name'', JStr ''Berlin'')]) = Inr False
   \<and> isValidCity (JObj [(''pollution'', JStr ''1000.00000000000000001''), (''name'', JStr ''Berlin'')])
       = Inr True
   \<and> isValidCity (JObj [(''pollution'', JStr ''-1e-400''), (''name'', JStr ''Berlin'')]) = Inr True"
proof -
  have nm: "map_of [(''name'', JStr ''Berlin'')] ''name'' = Some (JStr ''Berlin'')"
    by simp
  note th = pollution_accepted_in_range [OF nm Berlin_valid_name]
  note num = th [THEN conjunct1]
  note str = th [THEN conjunct2, THEN conjunct1]
  have n0: "isValidCity (JObj [(''pollution'', JNum (Fin 0)), (''name'', JStr ''Berlin'')]) = Inr True"
    by (simp add: num)
  have n1000: "isValidCity (JObj [(''pollution'', JNum (Fin 1000)), (''name'', JStr ''Berlin'')]) = Inr True"
    by (simp add: num)
  have nneg: "isValidCity (JObj [(''pollution'', JNum (toDouble (- (1 / 10)))), (''name'', JStr ''Berlin'')]) = Inr False"
    by (simp add: num toDouble_tenth)
  have nbig: "isValidCity (JObj [(''pollution'', JNum (toDouble (10001 / 10))), (''name'', JStr ''Berlin'')]) = Inr False"
    by (simp add: num toDouble_1000_1)
  have nnan: "isValidCity (JObj [(''pollution'', JNum NaN), (''name'', JStr ''Berlin'')]) = Inr False"
    by (simp add: num)
  have ninf: "isValidCity (JObj [(''pollution'', JNum PosInf), (''name'', JStr ''Berlin'')]) = Inr False"
    by (simp add: num)
  have t0: "isValidCity (JObj [(''pollution'', JStr ''0''), (''name'', JStr ''Berlin'')]) = Inr True"
    by (simp add: str parseFloat_examples)
  have t1000: "isValidCity (JObj [(''pollution'', JStr ''1000''), (''name'', JStr ''Berlin'')]) = Inr True"
    by (simp add: str parseFloat_examples)
  have t513: "isValidCity (JObj [(''pollution'', JStr ''51.3''), (''name'', JStr ''Berlin'')]) = Inr True"
    unfolding str parseFloat_examples
    by (simp, intro exI [of _ "3609916576314163 / 70368744177664"]) simp
  have tneg: "isValidCity (JObj [(''pollution'', JStr ''-0.1''), (''name'', JStr ''Berlin'')]) = Inr False"
    by (simp add: str parseFloat_examples)
  have tbig: "isValidCity (JObj [(''pollution'', JStr ''1000.1''), (''name'', JStr ''Berlin'')]) = Inr False"
    by (simp add: str parseFloat_examples)
  have tabc: "isValidCity (JObj [(''pollution'', JStr ''abc''), (''name'', JStr ''Berlin'')]) = Inr False"
    by (simp add: str parseFloat_examples)
  have tinf: "isValidCity (JObj [(''pollution'', JStr ''Infinity''), (''name'', JStr ''Berlin'')]) = Inr False"
    by (simp add: str parseFloat_examples)
  have tround: "isValidCity (JObj [(''pollution'', JStr ''1000.00000000000000001''), (''name'', JStr ''Berlin'')])
      = Inr True"
    by (simp add: str parseFloat_examples)
  have tunder: "isValidCity (JObj [(''pollution'', JStr ''-1e-400''), (''name'', JStr ''Berlin'')]) = Inr True"
    by (simp add: str parseFloat_underflow)
  show ?thesis
    using n0 n1000 nneg nbig nnan ninf t0 t1000 t513 tneg tbig tabc tinf tround tunder by blast
qed

text \<open>
  Claim C4. The claim is that the normalised form of every accepted record passes the
  name, the country and the pollution predicate. The record with the name Berlin, the
  country XX and the pollution 10 is accepted, and its normalised country is XX, which
  the country predicate rejects; the record with the pollution \<open>true\<close> is accepted
  too, and its normalised pollution is \<open>NaN\<close>.
\<close>

theorem normalized_city_fields_unchecked:
  "isValidCity (JObj [(''name'', JStr ''Berlin''), (''country'', JStr ''XX''), (''pollution'', JNum (Fin 10))])
     = Inr True
   \<and> normalizeCity ns (JObj [(''name'', JStr ''Berlin''), (''country'', JStr ''XX''), (''pollution'', JNum (Fin 10))])
       = Inr \<lparr> name = ''Berlin'', country = ''XX'', pollution = Fin 10 \<rparr>
   \<and> \<not> isValidCountry (JStr ''XX'')
   \<and> isValidCity (JObj [(''name'', JStr ''Berlin''), (''country'', JStr ''Germany''), (''pollution'', JBool True)])
     = Inr True
   \<and> normalizeCity ns (JObj [(''name'', JStr ''Berlin''), (''country'', JStr ''Germany''), (''pollution'', JBool True)])
       = Inr \<lparr> name = ''Berlin'', country = ''Germany'', pollution = NaN \<rparr>"
proof -
  have "isValidPollutionValue (JBool True) = Inr True"
    by (simp add: isValidPollutionValue_def isNaN_def isFinite_def toNumber_def
        lessThanNumber_def greaterThanNumber_def)
  then show ?thesis
    using Berlin_valid_name ten_valid_pollution XX_invalid_country
    by (simp add: isValidCity_iff normalizeCity_def toString_def parseFloatVal_def
        trim_def isSpace_def)
qed

theorem normalized_city_fields_unchecked_witness:
  "isValidCity (JObj [(''name'', JStr ''Berlin''), (''country'', JStr ''XX''), (''pollution'', JNum (Fin 10))])
     = Inr True
   \<and> normalizeCity printTen (JObj [(''name'', JStr ''Berlin''), (''country'', JStr ''XX''), (''pollution'', JNum (Fin 10))])
       = Inr \<lparr> name = ''Berlin'', country = ''XX'', pollution = Fin 10 \<rparr>
   \<and> \<not> isValidCountry (JStr ''XX'')"
  using normalized_city_fields_unchecked [of printTen] by simp

section \<open>Properties of the memory cache\<close>

lemma cache_inv_empty: "cache_inv empty_cache"
  by (simp add: cache_inv_def empty_cache_def)

lemma clear_timer_fields [simp]:
  "cache (clear_timer key st) = cache st"
  "clock (clear_timer key st) = clock st"
  "next_handle (clear_timer key st) = next_handle st"
  by (simp_all add: clear_timer_def clearTimeout_def split: option.splits)

lemma clear_timer_timers:
  "map_of (timers (clear_timer key st)) = (map_of (timers st))(key := None)"
  by (auto simp: clear_timer_def clearTimeout_def delete_conv' split: option.splits)

lemma clear_timer_scheduled:
  "set (scheduled (clear_timer key st)) \<subseteq> set (scheduled st)"
  by (auto simp: clear_timer_def clearTimeout_def split: option.splits)

lemma clear_timer_keeps:
  assumes "cache_inv st" and "(h, due, k) \<in> set (scheduled st)" and "k \<noteq> key"
  shows "(h, due, k) \<in> set (scheduled (clear_timer key st))"
proof (cases "map_of (timers st) key")
  case None
  then show ?thesis using assms by (simp add: clear_timer_def)
next
  case (Some h')
  have "map_of (timers st) k = Some h"
    using assms(1,2) by (auto simp: cache_inv_def)
  with Some assms(1,3) have "h \<noteq> h'"
    by (auto simp: cache_inv_def)
  with Some assms(2) show ?thesis
    by (auto simp: clear_timer_def clearTimeout_def)
qed

lemma clear_timer_unscheduled:
  assumes "cache_inv st"
  shows "unscheduled key (clear_timer key st)"
proof (cases "map_of (timers st) key")
  case None
  with assms show ?thesis
    by (auto simp: clear_timer_def unscheduled_def cache_inv_def)
next
  case (Some h')
  with assms show ?thesis
    by (auto simp: clear_timer_def clearTimeout_def unscheduled_def cache_inv_def)
qed

lemma clear_timer_inv:
  assumes "cache_inv st"
  shows "cache_inv (clear_timer key st)"
proof -
  have sub: "set (scheduled (clear_timer key st)) \<subseteq> set (scheduled st)"
    by (rule clear_timer_scheduled)
  have uns: "unscheduled key (clear_timer key st)"
    using assms by (rule clear_timer_unscheduled)
  show ?thesis
    unfolding cache_inv_def clear_timer_timers clear_timer_fields
    using assms sub uns
    by (auto simp: cache_inv_def unscheduled_def split: if_splits)
qed


lemma timeout_delay_le: "0 < ms \<Longrightarrow> int (timeout_delay ms) \<le> ms"
  by (simp add: timeout_delay_def TIMEOUT_MAX_def)

lemma cache_invI:
  assumes "\<And>h due key. (h, due, key) \<in> set (scheduled st) \<Longrightarrow> map_of (timers st) key = Some h"
    and "\<And>k k' h. map_of (timers st) k = Some h \<Longrightarrow> map_of (timers st) k' = Some h \<Longrightarrow> k = k'"
    and "\<And>k h. map_of (timers st) k = Some h \<Longrightarrow> h < next_handle st"
  shows "cache_inv st"
  unfolding cache_inv_def using assms by blast

lemma cache_inv_scheduled:
  "cache_inv st \<Longrightarrow> (h, due, key) \<in> set (scheduled st) \<Longrightarrow> map_of (timers st) key = Some h"
  unfolding cache_inv_def by blast

lemma cache_inv_inj:
  "cache_inv st \<Longrightarrow> map_of (timers st) k = Some h \<Longrightarrow> map_of (timers st) k' = Some h \<Longrightarrow> k = k'"
  unfolding cache_inv_def by blast

lemma cache_inv_fresh:
  "cache_inv st \<Longrightarrow> map_of (timers st) k = Some h \<Longrightarrow> h < next_handle st"
  unfolding cache_inv_def by blast

lemma cache_set_inv:
  assumes "cache_inv st"
  shows "cache_inv (cache_set key v ttl st)"
proof -
  let ?st1 = "clear_timer key st"
  have inv1: "cache_inv ?st1"
    using assms by (rule clear_timer_inv)
  have uns: "unscheduled key ?st1"
    using assms by (rule clear_timer_unscheduled)
  show ?thesis
  proof (cases "\<exists>ms. ttl = Some ms \<and> 0 < ms")
    case False
    then have "cache_set key v ttl st = ?st1\<lparr> cache := AList.update key v (cache ?st1) \<rparr>"
      by (auto simp: cache_set_def Let_def split: option.splits)
    with inv1 show ?thesis by (simp add: cache_inv_def)
  next
    case True
    then obtain ms where ms: "ttl = Some ms" "0 < ms" by blast
    let ?h = "next_handle st"
    let ?st' = "?st1\<lparr> cache := AList.update key v (cache ?st1),
               scheduled := scheduled ?st1 @ [(?h, clock st + timeout_delay ms, key)],
               next_handle := Suc ?h,
               timers := AList.update key ?h (timers ?st1) \<rparr>"
    have eq: "cache_set key v ttl st = ?st'"
      using ms by (simp add: cache_set_def Let_def setTimeout_def)
    have tm: "map_of (timers ?st') = (map_of (timers ?st1))(key \<mapsto> ?h)"
      by (simp add: update_conv')
    have fresh: "h < ?h" if "map_of (timers ?st1) k = Some h" for k h
      using cache_inv_fresh [OF inv1 that] by simp
    have "cache_inv ?st'"
    proof (rule cache_invI)
      fix h due k
      assume "(h, due, k) \<in> set (scheduled ?st')"
      then consider "h = ?h" "k = key" | "(h, due, k) \<in> set (scheduled ?st1)"
        by auto
      then show "map_of (timers ?st') k = Some h"
      proof cases
        case 1
        then show ?thesis unfolding tm by simp
      next
        case 2
        then have "k \<noteq> key"
          using uns by (auto simp: unscheduled_def)
        with cache_inv_scheduled [OF inv1 2] show ?thesis
          unfolding tm by simp
      qed
    next
      fix k k' h
      assume "map_of (timers ?st') k = Some h" and "map_of (timers ?st') k' = Some h"
      then show "k = k'"
        unfolding tm using fresh cache_inv_inj [OF inv1]
        by (fastforce split: if_splits)
    next
      fix k h
      assume "map_of (timers ?st') k = Some h"
      then have "h \<le> ?h"
        unfolding tm using fresh by (fastforce split: if_splits)
      then show "h < next_handle ?st'" by simp
    qed
    then show ?thesis by (simp only: eq)
  qed
qed


lemma cache_delete_inv:
  assumes "cache_inv st"
  shows "cache_inv (snd (cache_delete key st))"
  using clear_timer_inv [OF assms, of key]
  by (simp add: cache_delete_def Let_def cache_inv_def)

lemma clearTimeout_inv:
  assumes "cache_inv st"
  shows "cache_inv (clearTimeout h st)"
  using assms by (auto simp: cache_inv_def clearTimeout_def)

lemma fold_clearTimeout_scheduled:
  "scheduled (fold (\<lambda>(key, timer). clearTimeout timer) ts st)
     = filter (\<lambda>(h, due, key). h \<notin> snd ` set ts) (scheduled st)"
proof (induction ts arbitrary: st)
  case Nil
  show ?case by simp
next
  case (Cons t ts)
  obtain key timer where t: "t = (key, timer)" by (cases t)
  have "scheduled (fold (\<lambda>(key, timer). clearTimeout timer) (t # ts) st)
      = scheduled (fold (\<lambda>(key, timer). clearTimeout timer) ts (clearTimeout timer st))"
    by (simp add: t)
  also have "\<dots> = filter (\<lambda>(h, due, key). h \<notin> snd ` set ts) (scheduled (clearTimeout timer st))"
    by (rule Cons.IH)
  also have "\<dots> = filter (\<lambda>(h, due, key). h \<notin> snd ` set (t # ts)) (scheduled st)"
    by (auto simp: clearTimeout_def t intro: filter_cong)
  finally show ?case .
qed

lemma cache_clear_scheduled:
  assumes "cache_inv st"
  shows "scheduled (cache_clear st) = []"
proof -
  have "h \<in> snd ` set (timers st)" if "(h, due, key) \<in> set (scheduled st)" for h due key
  proof -
    have "map_of (timers st) key = Some h"
      using cache_inv_scheduled [OF assms that] .
    then have "(key, h) \<in> set (timers st)"
      by (rule map_of_SomeD)
    then show ?thesis by force
  qed
  then show ?thesis
    by (auto simp: cache_clear_def fold_clearTimeout_scheduled filter_empty_conv)
qed

lemma cache_clear_inv:
  assumes "cache_inv st"
  shows "cache_inv (cache_clear st)"
proof (rule cache_invI)
  fix h due key
  assume "(h, due, key) \<in> set (scheduled (cache_clear st))"
  then show "map_of (timers (cache_clear st)) key = Some h"
    using cache_clear_scheduled [OF assms] by simp
qed (simp_all add: cache_clear_def)

lemma fire_inv:
  assumes "cache_inv st"
  shows "cache_inv (fire h st)"
  using assms
  by (auto simp: fire_def intro!: cache_delete_inv clearTimeout_inv split: option.splits)

lemma fold_fire_inv:
  assumes "cache_inv st"
  shows "cache_inv (fold fire hs st)"
  using assms by (induction hs arbitrary: st) (simp_all add: fire_inv)

lemma elapse_inv:
  assumes "cache_inv st"
  shows "cache_inv (elapse ms st)"
proof -
  have "cache_inv (st'\<lparr> clock := t \<rparr>)" if "cache_inv st'" for st' t
    using that by (simp add: cache_inv_def)
  then show ?thesis
    unfolding elapse_def Let_def using fold_fire_inv [OF assms] by blast
qed

lemma apply_op_inv:
  assumes "cache_inv st"
  shows "cache_inv (apply_op op st)"
  using assms
  by (cases op) (simp_all add: cache_set_inv cache_delete_inv cache_clear_inv elapse_inv)


lemma cache_set_scheduled_key:
  assumes "cache_inv st"
  shows "filter (\<lambda>(h, due, k). k = key) (scheduled (cache_set key v ttl st))
           = (case ttl of
                Some ms \<Rightarrow> if 0 < ms then [(next_handle st, clock st + timeout_delay ms, key)] else []
              | None \<Rightarrow> [])"
proof -
  have "unscheduled key (clear_timer key st)"
    using assms by (rule clear_timer_unscheduled)
  then have "filter (\<lambda>(h, due, k). k = key) (scheduled (clear_timer key st)) = []"
    by (auto simp: unscheduled_def filter_empty_conv)
  then show ?thesis
    by (simp add: cache_set_def Let_def setTimeout_def split: option.splits)
qed

lemma cache_set_cache_same:
  "map_of (cache (cache_set key v ttl st)) key = Some v"
  by (simp add: cache_set_def Let_def setTimeout_def update_conv' split: option.splits)

lemma cache_set_cache_other:
  "k \<noteq> key \<Longrightarrow> map_of (cache (cache_set key v ttl st)) k = map_of (cache st) k"
  by (simp add: cache_set_def Let_def setTimeout_def update_conv' split: option.splits)

lemma cache_set_unscheduled_other:
  assumes "unscheduled k st" and "k \<noteq> key"
  shows "unscheduled k (cache_set key v ttl st)"
proof -
  have "unscheduled k (clear_timer key st)"
    using assms(1) clear_timer_scheduled [of key st] by (auto simp: unscheduled_def)
  with assms(2) show ?thesis
    by (auto simp: cache_set_def Let_def setTimeout_def unscheduled_def split: option.splits)
qed

lemma cache_delete_cache_same:
  "map_of (cache (snd (cache_delete key st))) key = None"
  by (simp add: cache_delete_def Let_def delete_conv')

lemma cache_delete_cache_other:
  "k \<noteq> key \<Longrightarrow> map_of (cache (snd (cache_delete key st))) k = map_of (cache st) k"
  by (simp add: cache_delete_def Let_def delete_conv')

lemma cache_delete_cache_None:
  "map_of (cache st) k = None \<Longrightarrow> map_of (cache (snd (cache_delete key st))) k = None"
  by (simp add: cache_delete_def Let_def delete_conv')

lemma cache_delete_unscheduled:
  assumes "unscheduled k st"
  shows "unscheduled k (snd (cache_delete key st))"
  using assms clear_timer_scheduled [of key st]
  by (auto simp: cache_delete_def Let_def unscheduled_def)

lemma clearTimeout_unscheduled:
  "unscheduled k st \<Longrightarrow> unscheduled k (clearTimeout h st)"
  by (auto simp: unscheduled_def clearTimeout_def)

lemma fire_cases:
  obtains (idle) "h \<notin> fst ` set (scheduled st)" and "fire h st = st"
  | (fired) due key where "(h, due, key) \<in> set (scheduled st)"
      and "fire h st = snd (cache_delete key (clearTimeout h st))"
proof (cases "find (\<lambda>(h', due, key). h' = h) (scheduled st)")
  case None
  then have "fire h st = st" by (simp add: fire_def)
  moreover from None have "h \<notin> fst ` set (scheduled st)"
    by (auto simp: find_None_iff)
  ultimately show ?thesis using idle by blast
next
  case (Some tm)
  obtain h' due key where tm: "tm = (h', due, key)" by (cases tm)
  from Some have "tm \<in> set (scheduled st)" and "h' = h"
    unfolding tm by (auto simp: find_Some_iff in_set_conv_nth)
  moreover have "fire h st = snd (cache_delete key (clearTimeout h st))"
    using Some by (simp add: fire_def tm)
  ultimately show ?thesis using fired tm by blast
qed

lemma fire_cache_None:
  assumes "map_of (cache st) k = None"
  shows "map_of (cache (fire h st)) k = None"
proof (cases h st rule: fire_cases)
  case idle
  with assms show ?thesis by simp
next
  case (fired due key)
  have "map_of (cache (clearTimeout h st)) k = None"
    using assms by (simp add: clearTimeout_def)
  then show ?thesis
    unfolding fired(2) by (rule cache_delete_cache_None)
qed

lemma fold_fire_cache_None:
  assumes "map_of (cache st) k = None"
  shows "map_of (cache (fold fire hs st)) k = None"
  using assms by (induction hs arbitrary: st) (simp_all add: fire_cache_None)

text \<open>Firing the timeouts of other keys leaves a key and its value alone.\<close>

lemma fire_keeps:
  assumes "unscheduled k st"
  shows "map_of (cache (fire h st)) k = map_of (cache st) k \<and> unscheduled k (fire h st)"
proof (cases h st rule: fire_cases)
  case idle
  with assms show ?thesis by simp
next
  case (fired due key)
  with assms have "k \<noteq> key"
    by (auto simp: unscheduled_def)
  then have "map_of (cache (fire h st)) k = map_of (cache (clearTimeout h st)) k"
    unfolding fired(2) by (rule cache_delete_cache_other)
  moreover have "unscheduled k (fire h st)"
    unfolding fired(2) using assms
    by (intro cache_delete_unscheduled clearTimeout_unscheduled)
  ultimately show ?thesis by (simp add: clearTimeout_def)
qed

lemma fold_fire_keeps:
  assumes "unscheduled k st"
  shows "map_of (cache (fold fire hs st)) k = map_of (cache st) k \<and> unscheduled k (fold fire hs st)"
  using assms
proof (induction hs arbitrary: st)
  case Nil
  then show ?case by simp
next
  case (Cons h hs)
  from fire_keeps [OF Cons.prems, of h] Cons.IH [of "fire h st"] show ?case by simp
qed

lemma elapse_keeps:
  assumes "unscheduled k st"
  shows "map_of (cache (elapse ms st)) k = map_of (cache st) k \<and> unscheduled k (elapse ms st)"
  using fold_fire_keeps [OF assms] by (simp add: elapse_def Let_def unscheduled_def)

text \<open>A scheduled timeout, once its handle fires, takes its key out of the cache.\<close>

lemma fold_fire_deletes:
  assumes "cache_inv st" and "(h, due, k) \<in> set (scheduled st)" and "h \<in> set hs"
  shows "map_of (cache (fold fire hs st)) k = None"
  using assms
proof (induction hs arbitrary: st)
  case Nil
  then show ?case by simp
next
  case (Cons h' hs)
  have tk: "map_of (timers st) k = Some h"
    using cache_inv_scheduled [OF Cons.prems(1,2)] .
  show ?case
  proof (cases h' st rule: fire_cases)
    case idle
    then have "h' \<noteq> h"
      using Cons.prems(2) by force
    with Cons.prems(3) have "h \<in> set hs" by simp
    from Cons.IH [OF Cons.prems(1,2) this] idle(2) show ?thesis by simp
  next
    case (fired due' key)
    have tkey: "map_of (timers st) key = Some h'"
      using cache_inv_scheduled [OF Cons.prems(1) fired(1)] .
    show ?thesis
    proof (cases "key = k")
      case True
      then have "map_of (cache (fire h' st)) k = None"
        unfolding fired(2) by (simp add: cache_delete_cache_same)
      then show ?thesis
        by (simp add: fold_fire_cache_None)
    next
      case False
      then have ne: "h' \<noteq> h"
        using cache_inv_inj [OF Cons.prems(1) tk] tkey by auto
      with Cons.prems(3) have mem: "h \<in> set hs" by simp
      let ?st1 = "clearTimeout h' st"
      have inv1: "cache_inv ?st1"
        using Cons.prems(1) by (rule clearTimeout_inv)
      have "(h, due, k) \<in> set (scheduled ?st1)"
        using Cons.prems(2) ne by (simp add: clearTimeout_def)
      then have "(h, due, k) \<in> set (scheduled (clear_timer key ?st1))"
        using inv1 False by (intro clear_timer_keeps) auto
      then have sch: "(h, due, k) \<in> set (scheduled (fire h' st))"
        unfolding fired(2) by (simp add: cache_delete_def Let_def)
      have "cache_inv (fire h' st)"
        using Cons.prems(1) by (rule fire_inv)
      from Cons.IH [OF this sch mem] show ?thesis by simp
    qed
  qed
qed


lemma cache_set_clock: "clock (cache_set key v ttl st) = clock st"
  by (simp add: cache_set_def Let_def setTimeout_def split: option.splits)

lemma apply_op_keeps:
  assumes "unscheduled k st" and "\<not> touches k op"
  shows "map_of (cache (apply_op op st)) k = map_of (cache st) k \<and> unscheduled k (apply_op op st)"
proof (cases op)
  case (Set key v ttl)
  with assms show ?thesis
    by (simp add: cache_set_cache_other cache_set_unscheduled_other)
next
  case (Delete key)
  with assms show ?thesis
    by (simp add: cache_delete_cache_other cache_delete_unscheduled)
next
  case Clear
  with assms show ?thesis by simp
next
  case (Elapse ms)
  with assms elapse_keeps [of k st ms] show ?thesis by simp
qed

lemma fold_apply_op_keeps:
  assumes "unscheduled k st" and "\<forall>op \<in> set ops. \<not> touches k op"
  shows "map_of (cache (fold apply_op ops st)) k = map_of (cache st) k"
  using assms
proof (induction ops arbitrary: st)
  case Nil
  show ?case by simp
next
  case (Cons op ops)
  from Cons.prems have "\<not> touches k op" and rest: "\<forall>op \<in> set ops. \<not> touches k op"
    by simp_all
  from apply_op_keeps [OF Cons.prems(1) this(1)] Cons.IH [of "apply_op op st", OF _ rest]
  show ?case by simp
qed

lemma expires_after_ttl:
  assumes "cache_inv st" and "0 < ms" and "ms \<le> int d"
  shows "map_of (cache (elapse d (cache_set k v (Some ms) st))) k = None"
proof -
  let ?st2 = "cache_set k v (Some ms) st"
  let ?tm = "(next_handle st, clock st + timeout_delay ms, k)"
  have "filter (\<lambda>(h, due, key). key = k) (scheduled ?st2) = [?tm]"
    using cache_set_scheduled_key [OF assms(1), of k v "Some ms"] assms(2) by simp
  then have "?tm \<in> set (filter (\<lambda>(h, due, key). key = k) (scheduled ?st2))"
    by simp
  then have sch: "?tm \<in> set (scheduled ?st2)"
    by simp
  have "timeout_delay ms \<le> d"
    using timeout_delay_le [OF assms(2)] assms(3) by linarith
  then have "?tm \<in> set (filter (\<lambda>(h, due, key). due \<le> clock ?st2 + d) (scheduled ?st2))"
    using sch by (simp add: cache_set_clock)
  then have "next_handle st \<in> set (map fst (sort_key (\<lambda>(h, due, key). due)
        (filter (\<lambda>(h, due, key). due \<le> clock ?st2 + d) (scheduled ?st2))))"
    by force
  from fold_fire_deletes [OF cache_set_inv [OF assms(1)] sch this]
  show ?thesis
    by (simp add: elapse_def Let_def)
qed

text \<open>
  Claim C9. In a cache reached from the empty one, \<open>set(k, v, ttl)\<close> leaves
  scheduled, for the key \<open>k\<close>, the one removal that its own time to live asks for
  and no other. So after \<open>set(k, v1)\<close> with no time to live and
  \<open>set(k, v2, ms)\<close>, once \<open>ms\<close> milliseconds or more have gone by, \<open>k\<close> is
  absent; and after \<open>set(k, v1, ttl)\<close> and \<open>set(k, v2)\<close> with no time to live,
  \<open>k\<close> holds \<open>v2\<close> whatever time goes by and whatever is done to other keys,
  until \<open>k\<close> itself is set again, deleted, or the cache cleared.
\<close>

theorem latest_set_governs_expiry:
  assumes "cache_inv st"
  shows "filter (\<lambda>(h, due, key). key = k) (scheduled (cache_set k v ttl st))
           = (case ttl of
                Some ms \<Rightarrow> if 0 < ms then [(next_handle st, clock st + timeout_delay ms, k)] else []
              | None \<Rightarrow> [])
       \<and> (0 < ms \<and> ms \<le> int d \<longrightarrow>
            \<not> cache_has k (elapse d (cache_set k v2 (Some ms) (cache_set k v1 None st)))
            \<and> cache_get k (elapse d (cache_set k v2 (Some ms) (cache_set k v1 None st))) = JUndefined)
       \<and> ((\<forall>op \<in> set ops. \<not> touches k op) \<longrightarrow>
            cache_has k (fold apply_op ops (cache_set k v2 None (cache_set k v1 ttl st)))
            \<and> cache_get k (fold apply_op ops (cache_set k v2 None (cache_set k v1 ttl st))) = v2)"
proof (intro conjI impI)
  show "filter (\<lambda>(h, due, key). key = k) (scheduled (cache_set k v ttl st))
           = (case ttl of
                Some ms \<Rightarrow> if 0 < ms then [(next_handle st, clock st + timeout_delay ms, k)] else []
              | None \<Rightarrow> [])"
    using assms by (rule cache_set_scheduled_key)
next
  assume ms: "0 < ms \<and> ms \<le> int d"
  have inv1: "cache_inv (cache_set k v1 None st)"
    using assms by (rule cache_set_inv)
  have gone: "map_of (cache (elapse d (cache_set k v2 (Some ms) (cache_set k v1 None st)))) k = None"
    using inv1 ms by (intro expires_after_ttl) simp_all
  show "\<not> cache_has k (elapse d (cache_set k v2 (Some ms) (cache_set k v1 None st)))"
    using gone by (simp add: cache_has_def)
  show "cache_get k (elapse d (cache_set k v2 (Some ms) (cache_set k v1 None st))) = JUndefined"
    using gone by (simp add: cache_get_def)
next
  assume ops: "\<forall>op \<in> set ops. \<not> touches k op"
  let ?st2 = "cache_set k v2 None (cache_set k v1 ttl st)"
  have inv1: "cache_inv (cache_set k v1 ttl st)"
    using assms by (rule cache_set_inv)
  have "filter (\<lambda>(h, due, key). key = k) (scheduled ?st2) = []"
    using cache_set_scheduled_key [OF inv1, of k v2 None] by simp
  then have "unscheduled k ?st2"
    by (auto simp: unscheduled_def filter_empty_conv)
  from fold_apply_op_keeps [OF this ops]
  have kept: "map_of (cache (fold apply_op ops ?st2)) k = Some v2"
    by (simp add: cache_set_cache_same)
  show "cache_has k (fold apply_op ops ?st2)"
    using kept by (simp add: cache_has_def)
  show "cache_get k (fold apply_op ops ?st2) = v2"
    using kept by (simp add: cache_get_def)
qed

lemmas cache_defs =
  cache_has_def cache_get_def elapse_def cache_set_def clear_timer_def empty_cache_def
  setTimeout_def clearTimeout_def timeout_delay_def TIMEOUT_MAX_def fire_def cache_delete_def
  cache_clear_def

theorem latest_set_governs_expiry_witness:
  "cache_inv empty_cache
   \<and> \<not> cache_has ''k'' (elapse 60 (cache_set ''k'' (JStr ''v2'') (Some 50)
          (cache_set ''k'' (JStr ''v1'') None empty_cache)))
   \<and> cache_get ''k'' (fold apply_op
          [Elapse 100000, Set ''other'' (JStr ''x'') (Some 10), Elapse 20, Delete ''other'']
          (cache_set ''k'' (JStr ''v2'') None (cache_set ''k'' (JStr ''v1'') (Some 50) empty_cache)))
       = JStr ''v2''"
  using latest_set_governs_expiry [OF cache_inv_empty, where k = "''k''" and ms = 50 and d = 60
      and ?v2.0 = "JStr ''v2''" and ?v1.0 = "JStr ''v1''" and ttl = "Some 50"
      and ops = "[Elapse 100000, Set ''other'' (JStr ''x'') (Some 10), Elapse 20, Delete ''other'']"]
    cache_inv_empty
  by simp

section \<open>Properties of the Wikipedia service\<close>

lemma lastIndexOf_none: "c \<notin> set s \<Longrightarrow> lastIndexOf s c = - 1"
  by (simp add: lastIndexOf_def)

lemma lastIndexOf_split:
  assumes "c \<in> set s"
  obtains pre post where "s = pre @ c # post" and "c \<notin> set post"
    and "lastIndexOf s c = int (length pre)"
proof -
  let ?tw = "takeWhile (\<lambda>x. x \<noteq> c) (rev s)"
  let ?dw = "dropWhile (\<lambda>x. x \<noteq> c) (rev s)"
  from assms have "?dw \<noteq> []"
    by (auto simp: dropWhile_eq_Nil_conv)
  then obtain y ys where dw: "?dw = y # ys"
    by (cases ?dw) auto
  then have "y = c"
    using hd_dropWhile [of "\<lambda>x. x \<noteq> c" "rev s"] by (metis list.sel(1) list.distinct(1))
  with dw have "rev s = ?tw @ c # ys"
    using takeWhile_dropWhile_id [of "\<lambda>x. x \<noteq> c" "rev s"] by simp
  then have s: "s = rev ys @ c # rev ?tw"
    by (metis rev_rev_ident rev_append rev.simps(2) append_Cons append_Nil append_assoc)
  have notin: "c \<notin> set (rev ?tw)"
    by (auto dest: set_takeWhileD)
  have "length s = length ys + 1 + length ?tw"
    by (subst s) simp
  then have "lastIndexOf s c = int (length (rev ys))"
    using assms by (simp add: lastIndexOf_def)
  with s notin show ?thesis
    using that by blast
qed

lemma length_trim_le: "length (trim s) \<le> length s"
proof -
  have "length (trim s) \<le> length (dropWhile isSpace s)"
    unfolding trim_def using length_dropWhile_le [of isSpace "rev (dropWhile isSpace s)"] by simp
  also have "\<dots> \<le> length s"
    by (rule length_dropWhile_le)
  finally show ?thesis .
qed

lemma cleanExtract_long:
  assumes "300 < length (trim e)"
  shows "cleanExtract e =
     (let t = trim (take 300 (trim e)); p = lastIndexOf t CHR ''.''
      in if 200 < p then take (nat (p + 1)) t else t @ ''...'')"
  using assms by (simp add: cleanExtract_def Let_def)

text \<open>
  Claim C2, as the code has it. An extract whose trimmed length exceeds 300 is cut to
  its first 300 characters, trimmed again. If the last period of that prefix lies at an
  index above 200, the description is the prefix up to and including that period: it
  has between 202 and 300 characters. Otherwise the description is the whole prefix
  followed by the ellipsis marker \<open>...\<close>, up to 303 characters. Either way it ends
  with a period.
\<close>

theorem long_extract_truncated:
  assumes "300 < length (trim e)"
  shows "(200 < lastIndexOf (trim (take 300 (trim e))) CHR ''.'' \<longrightarrow>
            cleanExtract e = take (nat (lastIndexOf (trim (take 300 (trim e))) CHR ''.'') + 1) (trim (take 300 (trim e)))
            \<and> CHR ''.'' \<notin> set (drop (nat (lastIndexOf (trim (take 300 (trim e))) CHR ''.'') + 1) (trim (take 300 (trim e))))
            \<and> 201 < length (cleanExtract e) \<and> length (cleanExtract e) \<le> 300)
       \<and> (\<not> 200 < lastIndexOf (trim (take 300 (trim e))) CHR ''.'' \<longrightarrow>
            cleanExtract e = trim (take 300 (trim e)) @ ''...'')
       \<and> length (cleanExtract e) \<le> 303
       \<and> last (cleanExtract e) = CHR ''.''
       \<and> settle (Response (JObj [(''extract'', JStr e)])) = Inr (JStr (cleanExtract e))"
proof -
  let ?t = "trim (take 300 (trim e))"
  let ?p = "lastIndexOf ?t CHR ''.''"
  have len_t: "length ?t \<le> 300"
    using length_trim_le [of "take 300 (trim e)"] by simp
  have ne: "e \<noteq> []"
    using assms by (auto simp: trim_def)
  have far: "cleanExtract e = take (nat ?p + 1) ?t
      \<and> CHR ''.'' \<notin> set (drop (nat ?p + 1) ?t)
      \<and> 201 < length (cleanExtract e) \<and> length (cleanExtract e) \<le> 300
      \<and> last (cleanExtract e) = CHR ''.''" if p: "200 < ?p"
  proof -
    have "CHR ''.'' \<in> set ?t"
      using p lastIndexOf_none [of "CHR ''.''" ?t] by fastforce
    then obtain pre post where t: "?t = pre @ CHR ''.'' # post"
      and post: "CHR ''.'' \<notin> set post" and idx: "?p = int (length pre)"
      by (rule lastIndexOf_split)
    have ce: "cleanExtract e = take (nat ?p + 1) ?t"
      using p by (simp add: cleanExtract_long [OF assms] Let_def nat_add_distrib)
    have tk: "take (nat ?p + 1) ?t = pre @ [CHR ''.'']"
      by (simp add: idx) (simp add: t)
    have dr: "drop (nat ?p + 1) ?t = post"
      by (simp add: idx) (simp add: t)
    have "length pre > 200"
      using p idx by simp
    moreover have "length ?t = length pre + 1 + length post"
      using arg_cong [OF t, of length] by simp
    then have "length (pre @ [CHR ''.'']) \<le> length ?t"
      by simp
    ultimately show ?thesis
      using len_t post unfolding ce dr tk by simp
  qed
  have near: "cleanExtract e = ?t @ ''...''" if "\<not> 200 < ?p"
    using that by (simp add: cleanExtract_long [OF assms] Let_def)
  have "length (cleanExtract e) \<le> 303 \<and> last (cleanExtract e) = CHR ''.''"
  proof (cases "200 < ?p")
    case True
    from far [OF True] have "length (cleanExtract e) \<le> 300" and "last (cleanExtract e) = CHR ''.''"
      by blast+
    then show ?thesis by simp
  next
    case False
    from near [OF False] len_t show ?thesis by simp
  qed
  moreover have "settle (Response (JObj [(''extract'', JStr e)])) = Inr (JStr (cleanExtract e))"
    using ne by (simp add: settle_def)
  ultimately show ?thesis
    using far near by blast
qed


lemma trim_no_space:
  assumes "s \<noteq> []" and "\<not> isSpace (hd s)" and "\<not> isSpace (last s)"
  shows "trim s = s"
proof -
  from assms(1,2) have 1: "dropWhile isSpace s = s"
    by (cases s) simp_all
  from assms(1,3) have 2: "dropWhile isSpace (rev s) = rev s"
    by (cases "rev s") (simp_all add: last_rev [symmetric] del: last_rev)
  show ?thesis
    by (simp add: trim_def 1 2)
qed

lemma trim_replicate_a: "trim (replicate (Suc n) CHR ''a'') = replicate (Suc n) CHR ''a''"
  by (rule trim_no_space) (simp_all add: isSpace_def)

lemma lastIndexOf_eq:
  assumes "s = pre @ c # post" and "c \<notin> set post"
  shows "lastIndexOf s c = int (length pre)"
proof -
  have "takeWhile (\<lambda>x. x \<noteq> c) (rev post @ c # rev pre) = rev post"
    using assms(2) by (subst takeWhile_append2) auto
  then show ?thesis
    by (simp add: lastIndexOf_def assms(1))
qed

lemma cleanExtract_301_a:
  "cleanExtract (replicate 301 CHR ''a'') = replicate 300 CHR ''a'' @ ''...''"
proof -
  have t1: "trim (replicate 301 CHR ''a'') = replicate 301 CHR ''a''"
    using trim_replicate_a [of 300] by simp
  have t2: "trim (replicate 300 CHR ''a'') = replicate 300 CHR ''a''"
    using trim_replicate_a [of 299] by simp
  show ?thesis
    by (simp add: cleanExtract_def Let_def t1 t2 lastIndexOf_def)
qed

lemma cleanExtract_early_period:
  "cleanExtract (replicate 150 CHR ''a'' @ CHR ''.'' # replicate 150 CHR ''b'')
     = replicate 150 CHR ''a'' @ CHR ''.'' # replicate 149 CHR ''b'' @ ''...''"
proof -
  let ?e = "replicate 150 CHR ''a'' @ CHR ''.'' # replicate 150 CHR ''b''"
  let ?t = "replicate 150 CHR ''a'' @ CHR ''.'' # replicate 149 CHR ''b''"
  have t1: "trim ?e = ?e"
    by (rule trim_no_space) (simp_all add: isSpace_def hd_append)
  have tk: "take 300 ?e = ?t"
    by simp
  have t2: "trim ?t = ?t"
    by (rule trim_no_space) (simp_all add: isSpace_def hd_append)
  have "lastIndexOf ?t CHR ''.'' = int (length (replicate 150 CHR ''a''))"
    by (rule lastIndexOf_eq [where post = "replicate 149 CHR ''b''"]) simp_all
  then have p: "lastIndexOf ?t CHR ''.'' = 150"
    by simp
  show ?thesis
    unfolding cleanExtract_def Let_def t1 tk t2 p by simp
qed

lemma cleanExtract_padded:
  "cleanExtract (CHR ''a'' # replicate 300 CHR '' '') = ''a''"
proof -
  have "dropWhile isSpace (replicate 300 CHR '' '' @ ''a'') = ''a''"
    by (subst dropWhile_append2) (simp_all add: isSpace_def)
  then have "trim (CHR ''a'' # replicate 300 CHR '' '') = ''a''"
    by (simp add: trim_def isSpace_def)
  then show ?thesis
    by (simp add: cleanExtract_def)
qed

text \<open>
  Claim C2 as stated fails on three extracts longer than 300 characters: 301 letters
  give a description of 303 characters; a period at index 150, before character 200,
  is not where the text is cut; and a letter followed by 300 spaces is returned as the
  letter alone, with neither a period nor an ellipsis at its end.
\<close>

theorem long_extract_counterexample:
  "300 < length (replicate 301 CHR ''a'')
   \<and> settle (Response (JObj [(''extract'', JStr (replicate 301 CHR ''a''))]))
       = Inr (JStr (replicate 300 CHR ''a'' @ ''...''))
   \<and> \<not> length (replicate 300 CHR ''a'' @ ''...'') \<le> 300
   \<and> 300 < length (replicate 150 CHR ''a'' @ CHR ''.'' # replicate 150 CHR ''b'')
   \<and> settle (Response (JObj [(''extract'', JStr (replicate 150 CHR ''a'' @ CHR ''.'' # replicate 150 CHR ''b''))]))
       = Inr (JStr (replicate 150 CHR ''a'' @ CHR ''.'' # replicate 149 CHR ''b'' @ ''...''))
   \<and> 300 < length (CHR ''a'' # replicate 300 CHR '' '')
   \<and> settle (Response (JObj [(''extract'', JStr (CHR ''a'' # replicate 300 CHR '' ''))]))
       = Inr (JStr ''a'')"
  by (simp add: settle_def cleanExtract_301_a cleanExtract_early_period cleanExtract_padded)

theorem long_extract_truncated_witness:
  "300 < length (trim (replicate 301 CHR ''a''))
   \<and> cleanExtract (replicate 301 CHR ''a'') = replicate 300 CHR ''a'' @ ''...''
   \<and> length (cleanExtract (replicate 301 CHR ''a'')) \<le> 303
   \<and> last (cleanExtract (replicate 301 CHR ''a'')) = CHR ''.''"
proof -
  have t1: "trim (replicate 301 CHR ''a'') = replicate 301 CHR ''a''"
    using trim_replicate_a [of 300] by simp
  have t2: "trim (replicate 300 CHR ''a'') = replicate 300 CHR ''a''"
    using trim_replicate_a [of 299] by simp
  have long: "300 < length (trim (replicate 301 CHR ''a''))"
    by (simp add: t1)
  have "lastIndexOf (replicate 300 CHR ''a'') CHR ''.'' = - 1"
    by (simp add: lastIndexOf_def)
  with long_extract_truncated [OF long] long show ?thesis
    by (simp add: t1 t2)
qed

lemma trySearchTerms_skip:
  assumes "\<not> usable client t"
  shows "trySearchTerms client key (t # terms) st reqs
           = trySearchTerms client key terms st (reqs @ [t])"
  using assms by (auto simp: usable_def split: sum.splits)

lemma trySearchTerms_found:
  assumes "usable client t"
  shows "trySearchTerms client key (t # terms) st reqs
           = (descriptionOf client t,
              cache_set key (descriptionOf client t) (Some (24 * 60 * 60 * 1000)) st,
              reqs @ [t])"
  using assms by (auto simp: usable_def descriptionOf_def split: sum.splits)

lemma trySearchTerms_exhausted:
  assumes "\<forall>t \<in> set terms. \<not> usable client t"
  shows "trySearchTerms client key terms st reqs
           = (JNull, cache_set key JNull (Some (60 * 60 * 1000)) st, reqs @ terms)"
  using assms
proof (induction terms arbitrary: reqs)
  case Nil
  show ?case by simp
next
  case (Cons t terms)
  then have "\<not> usable client t" and "\<forall>t \<in> set terms. \<not> usable client t"
    by simp_all
  have "trySearchTerms client key (t # terms) st reqs
      = trySearchTerms client key terms st (reqs @ [t])"
    by (rule trySearchTerms_skip) fact
  also have "\<dots> = (JNull, cache_set key JNull (Some (60 * 60 * 1000)) st, (reqs @ [t]) @ terms)"
    by (rule Cons.IH) fact
  finally show ?case by simp
qed

lemma trySearchTerms_first_usable:
  assumes "\<forall>x \<in> set pre. \<not> usable client x" and "usable client t"
  shows "trySearchTerms client key (pre @ t # post) st reqs
           = (descriptionOf client t,
              cache_set key (descriptionOf client t) (Some (24 * 60 * 60 * 1000)) st,
              reqs @ pre @ [t])"
  using assms(1)
proof (induction pre arbitrary: reqs)
  case Nil
  show ?case
    using trySearchTerms_found [OF assms(2), of key post st reqs] by simp
next
  case (Cons x pre)
  then have "\<not> usable client x" and "\<forall>x \<in> set pre. \<not> usable client x"
    by simp_all
  have "trySearchTerms client key ((x # pre) @ t # post) st reqs
      = trySearchTerms client key (pre @ t # post) st (reqs @ [x])"
    unfolding append_Cons by (rule trySearchTerms_skip) fact
  also have "\<dots> = (descriptionOf client t,
              cache_set key (descriptionOf client t) (Some (24 * 60 * 60 * 1000)) st,
              (reqs @ [x]) @ pre @ [t])"
    by (rule Cons.IH) fact
  finally show ?case by simp
qed


lemma trySearchTerms_eq:
  "trySearchTerms client key terms st reqs =
     (case dropWhile (\<lambda>t. \<not> usable client t) terms of
        [] \<Rightarrow> (JNull, cache_set key JNull (Some (60 * 60 * 1000)) st, reqs @ terms)
      | t # rest \<Rightarrow>
          (descriptionOf client t,
           cache_set key (descriptionOf client t) (Some (24 * 60 * 60 * 1000)) st,
           reqs @ takeWhile (\<lambda>t. \<not> usable client t) terms @ [t]))"
proof (cases "dropWhile (\<lambda>t. \<not> usable client t) terms")
  case Nil
  then have "\<forall>t \<in> set terms. \<not> usable client t"
    by (simp add: dropWhile_eq_Nil_conv)
  then show ?thesis
    by (simp only: trySearchTerms_exhausted Nil list.case)
next
  case (Cons t rest)
  let ?pre = "takeWhile (\<lambda>t. \<not> usable client t) terms"
  have split: "terms = ?pre @ t # rest"
    using takeWhile_dropWhile_id [of "\<lambda>t. \<not> usable client t" terms] Cons by simp
  have "usable client t"
    using hd_dropWhile [of "\<lambda>t. \<not> usable client t" terms] Cons by simp
  moreover have "\<forall>x \<in> set ?pre. \<not> usable client x"
    by (auto dest: set_takeWhileD)
  ultimately have "trySearchTerms client key (?pre @ t # rest) st reqs
           = (descriptionOf client t,
              cache_set key (descriptionOf client t) (Some (24 * 60 * 60 * 1000)) st,
              reqs @ ?pre @ [t])"
    by (intro trySearchTerms_first_usable)
  then show ?thesis
    unfolding Cons list.case using split by simp
qed

lemma getCityDescription_miss:
  assumes "\<not> truthy (cache_get (cacheKeyOf cityName countryName) st)"
  shows "getCityDescription client cityName countryName st
           = trySearchTerms client (cacheKeyOf cityName countryName)
               (searchTerms cityName countryName) st []"
  using assms by (simp add: getCityDescription_def Let_def)

lemma rejected_not_usable: "settle (client t) = Inl e \<Longrightarrow> \<not> usable client t"
  by (simp add: usable_def)

text \<open>
  Claim C3, as the code has it. On a cache miss the call looks the variants up in
  order and stops at the first one that yields a description that is not empty, which it
  caches for 24 hours and returns; a variant that fails, with a not-found response or
  with any other error, makes the call go on to the next variant; when no variant
  yields a description the call caches \<open>null\<close> for one hour and returns \<open>null\<close>.
\<close>

theorem failed_variant_continues:
  assumes "\<not> truthy (cache_get (cacheKeyOf cityName countryName) st)"
  shows "getCityDescription client cityName countryName st =
           (case dropWhile (\<lambda>t. \<not> usable client t) (searchTerms cityName countryName) of
              [] \<Rightarrow> (JNull,
                     cache_set (cacheKeyOf cityName countryName) JNull (Some (60 * 60 * 1000)) st,
                     searchTerms cityName countryName)
            | t # rest \<Rightarrow>
                (descriptionOf client t,
                 cache_set (cacheKeyOf cityName countryName) (descriptionOf client t)
                   (Some (24 * 60 * 60 * 1000)) st,
                 takeWhile (\<lambda>t. \<not> usable client t) (searchTerms cityName countryName) @ [t]))
       \<and> (settle (client cityName) = Inl e \<longrightarrow>
            take 2 (snd (snd (getCityDescription client cityName countryName st)))
              = [cityName, cityName @ '', '' @ countryName])"
proof -
  have eq: "getCityDescription client cityName countryName st =
           (case dropWhile (\<lambda>t. \<not> usable client t) (searchTerms cityName countryName) of
              [] \<Rightarrow> (JNull,
                     cache_set (cacheKeyOf cityName countryName) JNull (Some (60 * 60 * 1000)) st,
                     searchTerms cityName countryName)
            | t # rest \<Rightarrow>
                (descriptionOf client t,
                 cache_set (cacheKeyOf cityName countryName) (descriptionOf client t)
                   (Some (24 * 60 * 60 * 1000)) st,
                 takeWhile (\<lambda>t. \<not> usable client t) (searchTerms cityName countryName) @ [t]))"
    unfolding getCityDescription_miss [OF assms] trySearchTerms_eq by (simp only: append_Nil)
  have "take 2 (snd (snd (getCityDescription client cityName countryName st)))
      = [cityName, cityName @ '', '' @ countryName]" if "settle (client cityName) = Inl e"
  proof -
    have "\<not> usable client cityName"
      using that by (rule rejected_not_usable)
    then show ?thesis
      unfolding eq
      by (cases "usable client (cityName @ '', '' @ countryName)";
          cases "usable client (cityName @ '' '' @ countryName)")
        (simp_all add: searchTerms_def)
  qed
  with eq show ?thesis by blast
qed

lemmas cache_defs2 =
  cache_has_def cache_get_def cache_set_def clear_timer_def empty_cache_def
  setTimeout_def clearTimeout_def timeout_delay_def TIMEOUT_MAX_def

lemma berlin_500_settles:
  "settle (berlin_500 ''Berlin'') = Inl (RequestFailed (Some 500))"
  "settle (berlin_500 ''Berlin, Germany'') = Inr (JStr ''Berlin is the capital of Germany.'')"
  by (simp_all add: berlin_500_def settle_def cleanExtract_def trim_def isSpace_def)

text \<open>
  Claim C3 as stated fails: the lookup of the bare city name fails with the status 500,
  which is not a not-found response, and the call still looks the second variant up and
  returns its description.
\<close>

theorem other_error_continues_counterexample:
  "settle (berlin_500 ''Berlin'') = Inl (RequestFailed (Some 500))
   \<and> fst (getCityDescription berlin_500 ''Berlin'' ''Germany'' empty_cache)
       = JStr ''Berlin is the capital of Germany.''
   \<and> snd (snd (getCityDescription berlin_500 ''Berlin'' ''Germany'' empty_cache))
       = [''Berlin'', ''Berlin, Germany'']"
  by (simp add: getCityDescription_def Let_def searchTerms_def berlin_500_settles
      cache_get_def empty_cache_def)

theorem failed_variant_continues_witness:
  "\<not> truthy (cache_get (cacheKeyOf ''Berlin'' ''Germany'') empty_cache)
   \<and> settle (berlin_500 ''Berlin'') = Inl (RequestFailed (Some 500))
   \<and> take 2 (snd (snd (getCityDescription berlin_500 ''Berlin'' ''Germany'' empty_cache)))
       = [''Berlin'', ''Berlin, Germany'']"
proof -
  have miss: "\<not> truthy (cache_get (cacheKeyOf ''Berlin'' ''Germany'') empty_cache)"
    by (simp add: cache_get_def empty_cache_def)
  note th = failed_variant_continues [OF miss, of berlin_500 "RequestFailed (Some 500)"]
  from th [THEN conjunct2, THEN mp, OF berlin_500_settles(1)]
  have "take 2 (snd (snd (getCityDescription berlin_500 ''Berlin'' ''Germany'' empty_cache)))
      = [''Berlin'', ''Berlin, Germany'']"
    by simp
  with miss berlin_500_settles(1) show ?thesis
    by blast
qed

lemma cache_hit_no_request:
  assumes "truthy (cache_get (cacheKeyOf cityName countryName) st)"
  shows "getCityDescription client cityName countryName st
           = (cache_get (cacheKeyOf cityName countryName) st, st, [])"
  using assms by (simp add: getCityDescription_def Let_def)

lemma atlantis_key: "cacheKeyOf ''Atlantis'' ''Nowhere'' = ''wiki_atlantis_nowhere''"
  by (simp add: cacheKeyOf_def toLowerCase_def lowerChar_def char_of_def bit_Suc_0_iff)

lemma always_404_settles: "settle (always_404 t) = Inr JNull"
  by (simp add: always_404_def settle_def)

text \<open>
  Claim C1. The claim is that a key present in the cache, the not-found sentinel
  included, is answered from the cache with no lookup. A first call for a city that
  has no page exhausts the three variants and stores the sentinel \<open>null\<close> under the
  key; the second call finds the key in the cache, holding \<open>null\<close>, and puts the
  three lookups on the queue again.
\<close>

theorem cached_not_found_looked_up_again:
  "getCityDescription always_404 ''Atlantis'' ''Nowhere'' empty_cache
     = (JNull,
        \<lparr> cache = [(''wiki_atlantis_nowhere'', JNull)],
          timers = [(''wiki_atlantis_nowhere'', 0)],
          scheduled = [(0, 3600000, ''wiki_atlantis_nowhere'')],
          clock = 0, next_handle = 1 \<rparr>,
        [''Atlantis'', ''Atlantis, Nowhere'', ''Atlantis Nowhere''])
   \<and> cache_has ''wiki_atlantis_nowhere''
        \<lparr> cache = [(''wiki_atlantis_nowhere'', JNull)],
          timers = [(''wiki_atlantis_nowhere'', 0)],
          scheduled = [(0, 3600000, ''wiki_atlantis_nowhere'')],
          clock = 0, next_handle = 1 \<rparr>
   \<and> snd (snd (getCityDescription always_404 ''Atlantis'' ''Nowhere''
        \<lparr> cache = [(''wiki_atlantis_nowhere'', JNull)],
          timers = [(''wiki_atlantis_nowhere'', 0)],
          scheduled = [(0, 3600000, ''wiki_atlantis_nowhere'')],
          clock = 0, next_handle = 1 \<rparr>))
       = [''Atlantis'', ''Atlantis, Nowhere'', ''Atlantis Nowhere'']"
  by (simp add: getCityDescription_def Let_def atlantis_key searchTerms_def always_404_settles
      cache_defs2)

section \<open>Properties of the request queue\<close>

lemma spaced_snoc:
  assumes "spaced m ts" and "\<forall>t \<in> set ts. t + m \<le> u"
  shows "spaced m (ts @ [u])"
  using assms by (induction m ts rule: spaced.induct) simp_all

lemma service_inv_new: "service_inv (new_service\<lparr> minRequestInterval := m \<rparr>)"
  by (simp add: service_inv_def new_service_def)

lemma loops_cases [consumes 1, case_names idle busy]:
  assumes "service_inv sv"
  obtains (idle) "loops sv = []" and "\<not> isProcessing sv"
  | (busy) l where "loops sv = [l]" and "isProcessing sv"
proof (cases "loops sv")
  case Nil
  with assms idle show ?thesis by (simp add: service_inv_def)
next
  case (Cons l ls)
  with assms have "ls = []" by (simp add: service_inv_def)
  with Cons assms busy show ?thesis by (simp add: service_inv_def)
qed

lemma fetch_inv:
  assumes "service_inv sv"
  shows "service_inv (snd (fetchDescriptionByTitle title sv))"
  using assms
proof (cases rule: loops_cases)
  case idle
  let ?r = "(title, next_promise sv)"
  obtain q rest where q: "requestQueue sv @ [?r] = q # rest"
    by (cases "requestQueue sv @ [?r]") simp_all
  have sp: "spaced (minRequestInterval sv) (map fst (dispatched sv) @ [now sv])"
    using assms idle by (intro spaced_snoc) (simp_all add: service_inv_def)
  show ?thesis
    using assms idle sp q
    by (simp add: fetchDescriptionByTitle_def processQueue_def loop_head_def service_inv_def)
next
  case (busy l)
  with assms show ?thesis
    by (simp add: fetchDescriptionByTitle_def processQueue_def service_inv_def)
qed

lemma get_settles_inv:
  assumes "service_inv sv" and "step (GetSettles i outcome) sv = Some sv'"
  shows "service_inv sv'"
  using assms(1)
proof (cases rule: loops_cases)
  case idle
  with assms(2) show ?thesis by (simp add: step_def)
next
  case (busy l)
  with assms(2) have i: "i = 0" by (simp add: step_def split: if_splits)
  from assms(2) busy i obtain r where l: "l = AwaitingGet r"
    by (cases l) (simp_all add: step_def)
  from assms(2) busy i l
  have sv': "sv' = sv\<lparr> settlements := settlements sv @ [(snd r, settle outcome)],
                       loops := [AwaitingDelay (now sv + minRequestInterval sv)] \<rparr>"
    by (simp add: step_def)
  show ?thesis
    unfolding sv' using assms(1) busy by (simp add: service_inv_def)
qed

lemma delay_elapses_inv:
  assumes "service_inv sv" and "step (DelayElapses i) sv = Some sv'"
  shows "service_inv sv'"
  using assms(1)
proof (cases rule: loops_cases)
  case idle
  with assms(2) show ?thesis by (simp add: step_def)
next
  case (busy l)
  with assms(2) have i: "i = 0" by (simp add: step_def split: if_splits)
  from assms(2) busy i obtain due where l: "l = AwaitingDelay due"
    by (cases l) (simp_all add: step_def)
  from assms(2) busy i l have due: "due \<le> now sv"
    by (simp add: step_def split: if_splits)
  have late: "\<forall>t \<in> set (map fst (dispatched sv)). t + minRequestInterval sv \<le> now sv"
    using assms(1) busy l due by (fastforce simp: service_inv_def)
  show ?thesis
  proof (cases "requestQueue sv")
    case Nil
    with assms(2) busy i l due
    have sv': "sv' = sv\<lparr> isProcessing := False, loops := [] \<rparr>"
      by (simp add: step_def loop_head_def)
    show ?thesis
      unfolding sv' using assms(1) late Nil by (simp add: service_inv_def)
  next
    case (Cons r rest)
    with assms(2) busy i l due
    have sv': "sv' = sv\<lparr> requestQueue := rest, dispatched := dispatched sv @ [(now sv, r)],
                         loops := [AwaitingGet r] \<rparr>"
      by (simp add: step_def loop_head_def)
    have sp: "spaced (minRequestInterval sv) (map fst (dispatched sv) @ [now sv])"
      using assms(1) late by (intro spaced_snoc) (simp_all add: service_inv_def)
    show ?thesis
      unfolding sv' using assms(1) busy sp Cons by (simp add: service_inv_def)
  qed
qed

lemma time_passes_inv:
  assumes "service_inv sv"
  shows "service_inv (sv\<lparr> now := now sv + ms \<rparr>)"
  using assms by (auto simp: service_inv_def intro: trans_le_add1)

lemma step_inv:
  assumes "service_inv sv" and "step ev sv = Some sv'"
  shows "service_inv sv'"
proof (cases ev)
  case (Fetch title)
  with assms(2) fetch_inv [OF assms(1), of title] show ?thesis
    by (simp add: step_def)
next
  case (GetSettles i outcome)
  with assms show ?thesis by (simp add: get_settles_inv)
next
  case (DelayElapses i)
  with assms show ?thesis by (simp add: delay_elapses_inv)
next
  case (TimePasses ms)
  with assms(2) time_passes_inv [OF assms(1), of ms] show ?thesis
    by (simp add: step_def)
qed

lemma step_interval:
  assumes "step ev sv = Some sv'"
  shows "minRequestInterval sv' = minRequestInterval sv"
  using assms
  by (cases ev)
    (auto simp: step_def fetchDescriptionByTitle_def processQueue_def loop_head_def Let_def
      split: if_splits drain_loop.splits list.splits)

lemma run_inv:
  assumes "service_inv sv" and "run evs sv = Some sv'"
  shows "service_inv sv' \<and> minRequestInterval sv' = minRequestInterval sv"
  using assms
proof (induction evs arbitrary: sv)
  case Nil
  then show ?case by simp
next
  case (Cons ev evs)
  from Cons.prems(2) obtain sv1 where s: "step ev sv = Some sv1" and r: "run evs sv1 = Some sv'"
    by (auto split: option.splits)
  from Cons.IH [OF step_inv [OF Cons.prems(1) s] r] step_interval [OF s]
  show ?case by simp
qed

text \<open>
  Claim C5. Whatever the callers fetch and whenever the requests come back, in every
  state that the service reaches: the times of any two consecutive calls of
  \<open>client.get\<close> are at least \<open>minRequestInterval\<close> apart; the requests are sent in
  the order in which they were put on the queue; at most one request is in flight; at
  most one invocation of \<open>_processQueue\<close> is inside the loop, and it is there exactly
  when \<open>isProcessing\<close> is set, which makes any other invocation return at once.
\<close>

theorem queue_paced_fifo_single_flight:
  assumes "run evs (new_service\<lparr> minRequestInterval := m \<rparr>) = Some sv"
  shows "spaced m (map fst (dispatched sv))
       \<and> map snd (dispatched sv) @ requestQueue sv = enqueued sv
       \<and> length (filter in_flight (loops sv)) \<le> 1
       \<and> length (loops sv) \<le> 1
       \<and> (isProcessing sv \<longleftrightarrow> loops sv \<noteq> [])
       \<and> (isProcessing sv \<longrightarrow> processQueue sv = sv)"
proof -
  from run_inv [OF service_inv_new assms]
  have inv: "service_inv sv" and m: "minRequestInterval sv = m"
    by simp_all
  have "length (filter in_flight (loops sv)) \<le> length (loops sv)"
    by (rule length_filter_le)
  moreover have "length (loops sv) \<le> 1"
    using inv by (simp add: service_inv_def)
  ultimately have flight: "length (filter in_flight (loops sv)) \<le> 1"
    by linarith
  have "spaced m (map fst (dispatched sv))"
    using inv m by (simp add: service_inv_def)
  moreover have "map snd (dispatched sv) @ requestQueue sv = enqueued sv"
    using inv by (simp add: service_inv_def)
  moreover have "length (loops sv) \<le> 1" and "isProcessing sv \<longleftrightarrow> loops sv \<noteq> []"
    using inv by (simp_all add: service_inv_def)
  moreover have "isProcessing sv \<longrightarrow> processQueue sv = sv"
    by (simp add: processQueue_def)
  ultimately show ?thesis
    using flight by blast
qed

lemmas service_defs =
  new_service_def step_def fetchDescriptionByTitle_def processQueue_def loop_head_def
  settle_def

theorem queue_paced_fifo_single_flight_witness:
  "run [Fetch ''Berlin'', Fetch ''Paris'', GetSettles 0 (HttpError 404),
        Fetch ''Berlin, Germany'', TimePasses 100, DelayElapses 0, TimePasses 30,
        GetSettles 0 NetworkError, TimePasses 150, DelayElapses 0]
       (new_service\<lparr> minRequestInterval := 100 \<rparr>)
     = Some \<lparr> requestQueue = [], isProcessing = True, minRequestInterval = 100,
              loops = [AwaitingGet (''Berlin, Germany'', 2)], now = 280,
              enqueued = [(''Berlin'', 0), (''Paris'', 1), (''Berlin, Germany'', 2)],
              dispatched = [(0, ''Berlin'', 0), (100, ''Paris'', 1), (280, ''Berlin, Germany'', 2)],
              settlements = [(0, Inr JNull), (1, Inl (RequestFailed None))],
              next_promise = 3 \<rparr>
   \<and> spaced 100 [0, 100, 280]"
proof -
  have r: "run [Fetch ''Berlin'', Fetch ''Paris'', GetSettles 0 (HttpError 404),
        Fetch ''Berlin, Germany'', TimePasses 100, DelayElapses 0, TimePasses 30,
        GetSettles 0 NetworkError, TimePasses 150, DelayElapses 0]
       (new_service\<lparr> minRequestInterval := 100 \<rparr>)
     = Some \<lparr> requestQueue = [], isProcessing = True, minRequestInterval = 100,
              loops = [AwaitingGet (''Berlin, Germany'', 2)], now = 280,
              enqueued = [(''Berlin'', 0), (''Paris'', 1), (''Berlin, Germany'', 2)],
              dispatched = [(0, ''Berlin'', 0), (100, ''Paris'', 1), (280, ''Berlin, Germany'', 2)],
              settlements = [(0, Inr JNull), (1, Inl (RequestFailed None))],
              next_promise = 3 \<rparr>"
    by (simp add: service_defs)
  from queue_paced_fifo_single_flight [OF r] r show ?thesis
    by simp
qed

end
